theory Spec2Isabelle
  imports Main
begin

section \<open>Data model of the single-threaded reactor runtime (reactor.c)\<close>

text \<open>
  Instants and intervals are the C type \<^verbatim>\<open>long long\<close> counting nanoseconds: integers
  from \<open>- 2 ^ 63\<close> to \<open>2 ^ 63 - 1\<close>.  Signed overflow is undefined behaviour in C and
  the compiled code wraps around; every addition and subtraction \<^verbatim>\<open>reactor.c\<close> makes on
  these values is followed by \<open>wrap64\<close> here.  Pointers are addresses; a pointer that
  may be \<^verbatim>\<open>NULL\<close> is an \<open>addr option\<close>.
\<close>

type_synonym instant_t = int
type_synonym interval_t = int
type_synonym addr = nat

definition LLONG_MAX :: instant_t where
  "LLONG_MAX = 9223372036854775807"

definition wrap64 :: "int \<Rightarrow> int" where
  "wrap64 x = (x + 9223372036854775808) mod 18446744073709551616 - 9223372036854775808"

definition in64 :: "int \<Rightarrow> bool" where
  "in64 x \<longleftrightarrow> - 9223372036854775808 \<le> x \<and> x < 9223372036854775808"

text \<open>
  The fields are the ones \<^verbatim>\<open>reactor.c\<close> reads and writes.  The array
  \<^verbatim>\<open>reactions\<close> together with \<^verbatim>\<open>number_of_reactions\<close> is a list; \<open>index\<close> is the
  priority of a reaction in \<^verbatim>\<open>reaction_q\<close>.  The fields \<^verbatim>\<open>function\<close> and \<^verbatim>\<open>self\<close> of
  a reaction are \<open>rfunction\<close> and \<open>rself\<close> here, and the field \<^verbatim>\<open>payload\<close> of an
  event is \<open>ev_payload\<close>.
\<close>

record reaction_t =
  rfunction :: nat
  rself :: nat
  index :: int
  deadline :: interval_t
  deadline_violation :: "addr option"

record trigger_t =
  reactions :: "addr list"
  offset :: interval_t
  period :: interval_t
  payload :: "addr option"

record event_t =
  time :: instant_t
  trigger :: addr
  ev_payload :: "addr option"

text \<open>
  What the runtime does, in the order it happens.  \<open>Popped e p\<close> is the pop of the
  event \<open>e\<close> from \<^verbatim>\<open>event_q\<close> on line 80, with the payload pointer the event holds.
\<close>

datatype action =
    Waited instant_t
  | StartTimeStep
  | Popped addr "addr option"
  | Scheduled addr interval_t "addr option"
  | ClockSampled instant_t
  | Invoked addr
  | Chained addr
  | Freed addr
  | Initialized
  | TimersStarted
  | Printed interval_t interval_t

datatype error = NullPointer | OutOfFuel

text \<open>
  The globals of the runtime.  \<open>events\<close>, \<open>triggers\<close> and \<open>reaction_tab\<close> are the
  memory holding the records the queues point to; \<open>next_fresh\<close> is the next address
  \<^verbatim>\<open>malloc\<close> hands out for an event record.  \<open>world\<close> is everything outside the
  runtime: the reactors' own state and the physical clock.
\<close>

record 'w runtime =
  current_time :: instant_t
  stop_time :: instant_t
  stop_requested :: bool
  wait_specified :: bool
  physicalStartTime :: instant_t
  event_q :: "addr list"
  reaction_q :: "addr list"
  recycle_q :: "addr list"
  free_q :: "addr list"
  events :: "addr \<Rightarrow> event_t"
  next_fresh :: addr
  triggers :: "addr \<Rightarrow> trigger_t"
  reaction_tab :: "addr \<Rightarrow> reaction_t"
  handle_ctr :: int
  trace :: "action list"
  world :: 'w

text \<open>
  The collaborators of \<^verbatim>\<open>reactor.c\<close> whose code is generated or lives in
  \<^verbatim>\<open>reactor_common.c\<close>, taken as parameters:
  \<^item> \<open>wait_until_fn\<close>: \<^verbatim>\<open>wait_until\<close>, which returns an int and may change the globals;
  \<^item> \<open>start_time_step_fn\<close>: \<^verbatim>\<open>__start_time_step\<close>, acting on the reactors' ports;
  \<^item> \<open>clock_fn\<close>: \<^verbatim>\<open>clock_gettime(CLOCK_REALTIME, ...)\<close> converted to nanoseconds;
  \<^item> \<open>body_fn\<close>: the body of a reaction, called as \<^verbatim>\<open>function(self)\<close>: it reads the
    runtime and answers with the \<^verbatim>\<open>schedule\<close> calls it makes, in order, and the new
    state of the reactors;
  \<^item> \<open>outputs_fn\<close>: the reactions downstream of the outputs a reaction has produced;
  \<^item> \<open>schedule_time_fn\<close>: the firing instant \<^verbatim>\<open>__schedule\<close> computes from the current
    time, the trigger and the delay it is given.  The sources do not settle it:
    \<^verbatim>\<open>schedule\<close> adds the offset of the trigger before the call (line 20), and the
    comment on lines 88 and 89 says that \<^verbatim>\<open>__schedule\<close> will add the offset;
  \<^item> \<open>process_args_fn\<close> and \<open>initialize_fn\<close>: the start-up steps called by \<^verbatim>\<open>main\<close>;
  \<^item> \<open>start_timers_fn\<close>: the timer triggers of the program, which the generated
    \<^verbatim>\<open>__start_timers\<close> schedules.
\<close>

record 'w env =
  wait_until_fn :: "instant_t \<Rightarrow> 'w runtime \<Rightarrow> int \<times> 'w runtime"
  start_time_step_fn :: "'w \<Rightarrow> 'w"
  clock_fn :: "'w \<Rightarrow> instant_t \<times> 'w"
  body_fn :: "nat \<Rightarrow> nat \<Rightarrow> 'w runtime \<Rightarrow> (addr \<times> interval_t \<times> addr option) list \<times> 'w"
  outputs_fn :: "addr \<Rightarrow> 'w \<Rightarrow> addr list"
  schedule_time_fn :: "instant_t \<Rightarrow> trigger_t \<Rightarrow> interval_t \<Rightarrow> instant_t"
  process_args_fn :: "string list \<Rightarrow> 'w runtime \<Rightarrow> bool \<times> 'w runtime"
  initialize_fn :: "'w runtime \<Rightarrow> 'w runtime"
  start_timers_fn :: "'w runtime \<Rightarrow> addr list"

section \<open>Priority queues\<close>

text \<open>
  Modelled from the spec: the priority queue (\<^verbatim>\<open>pqueue_insert\<close>, \<^verbatim>\<open>pqueue_peek\<close>,
  \<^verbatim>\<open>pqueue_pop\<close>, \<^verbatim>\<open>pqueue_size\<close>), whose code is not part of \<^verbatim>\<open>reactor.c\<close>.  A queue
  is the list of its elements, least key first; an element is inserted behind the
  elements whose key is not greater.  Peek and pop answer \<^verbatim>\<open>NULL\<close> on the empty queue.
\<close>

fun pqueue_insert :: "('a \<Rightarrow> int) \<Rightarrow> 'a \<Rightarrow> 'a list \<Rightarrow> 'a list" where
  "pqueue_insert k x [] = [x]"
| "pqueue_insert k x (y # ys) =
     (if k x < k y then x # y # ys else y # pqueue_insert k x ys)"

definition pqueue_peek :: "'a list \<Rightarrow> 'a option" where
  "pqueue_peek q = (case q of [] \<Rightarrow> None | x # _ \<Rightarrow> Some x)"

definition pqueue_pop :: "'a list \<Rightarrow> 'a option \<times> 'a list" where
  "pqueue_pop q = (case q of [] \<Rightarrow> (None, []) | x # r \<Rightarrow> (Some x, r))"

text \<open>
  Modelled from the spec: the comparators of the queues.  \<^verbatim>\<open>event_q\<close>, and the pools
  \<^verbatim>\<open>recycle_q\<close> and \<^verbatim>\<open>free_q\<close>, are ordered by the time of the event;
  \<^verbatim>\<open>reaction_q\<close> is ordered by the index of the reaction.
\<close>

definition event_key :: "'w runtime \<Rightarrow> addr \<Rightarrow> int" where
  "event_key s e = time (events s e)"

definition reaction_key :: "'w runtime \<Rightarrow> addr \<Rightarrow> int" where
  "reaction_key s r = index (reaction_tab s r)"

section \<open>Scheduling\<close>

text \<open>
  Modelled from the spec: the event record \<^verbatim>\<open>__schedule\<close> acquires, the head of
  \<^verbatim>\<open>recycle_q\<close> if there is one and a fresh record otherwise.
\<close>

definition acquire_event :: "'w runtime \<Rightarrow> addr" where
  "acquire_event s = (case recycle_q s of [] \<Rightarrow> next_fresh s | e # _ \<Rightarrow> e)"

text \<open>
  Modelled from the spec: how an event is queued.  A record is acquired, it is given the
  trigger, the firing instant and the payload, which the event owns from then on, and it
  is inserted into \<^verbatim>\<open>event_q\<close>.  An event of \<^verbatim>\<open>reactor.c\<close> carries an instant only
  (\<^verbatim>\<open>event->time\<close>): there is no microstep field.
\<close>

definition enqueue_event :: "addr \<Rightarrow> instant_t \<Rightarrow> addr option \<Rightarrow> 'w runtime \<Rightarrow> 'w runtime" where
  "enqueue_event tr t pl s =
     (let e = acquire_event s;
          s1 = (case recycle_q s of
                  [] \<Rightarrow> s\<lparr>next_fresh := Suc (next_fresh s)\<rparr>
                | _ # rest \<Rightarrow> s\<lparr>recycle_q := rest\<rparr>);
          s2 = s1\<lparr>events := (events s1)(e := \<lparr>time = t, trigger = tr, ev_payload = pl\<rparr>)\<rparr>
      in s2\<lparr>event_q := pqueue_insert (event_key s2) e (event_q s2)\<rparr>)"

text \<open>
  Modelled from the spec: \<^verbatim>\<open>__schedule(trigger, delay, payload)\<close> of
  \<^verbatim>\<open>reactor_common.c\<close>, which is not among the sources.  It queues an event of the
  trigger with the payload and returns a handle.  The firing instant is the parameter
  \<open>schedule_time_fn\<close>, applied to the current time, the trigger and the delay; whether a
  negative delay is clamped there is a property of that parameter.
\<close>

definition internal_schedule ::
  "'w env \<Rightarrow> addr \<Rightarrow> interval_t \<Rightarrow> addr option \<Rightarrow> 'w runtime \<Rightarrow> int \<times> 'w runtime" where
  "internal_schedule env tr delay pl s =
     (let s3 = enqueue_event tr (schedule_time_fn env (current_time s) (triggers s tr) delay) pl s
      in (handle_ctr s3,
          s3\<lparr>handle_ctr := handle_ctr s3 + 1,
             trace := trace s3 @ [Scheduled tr delay pl]\<rparr>))"

text \<open>
  Two readings of the firing instant.  In the first \<^verbatim>\<open>__schedule\<close> queues the event
  its delay after the current time; in the second it adds the offset of the trigger as
  well, as the comment on lines 88 and 89 says.
\<close>

definition queues_after_delay :: "'w env \<Rightarrow> bool" where
  "queues_after_delay env \<longleftrightarrow> (\<forall>c t d. schedule_time_fn env c t d = wrap64 (c + d))"

definition adds_offset_back :: "'w env \<Rightarrow> bool" where
  "adds_offset_back env \<longleftrightarrow>
     (\<forall>c t d. schedule_time_fn env c t d = wrap64 (c + offset t + d))"

text \<open>\<^verbatim>\<open>schedule\<close>, lines 19 to 21 of \<^verbatim>\<open>reactor.c\<close>.\<close>

definition schedule ::
  "'w env \<Rightarrow> addr \<Rightarrow> interval_t \<Rightarrow> addr option \<Rightarrow> 'w runtime \<Rightarrow> int \<times> 'w runtime" where
  "schedule env tr extra_delay pl s =
     internal_schedule env tr (wrap64 (offset (triggers s tr) + extra_delay)) pl s"

section \<open>Invoking reactions\<close>

text \<open>
  \<^verbatim>\<open>reaction->function(reaction->self)\<close>: the body runs and every \<^verbatim>\<open>schedule\<close> call it
  makes is carried out.
\<close>

definition do_schedules ::
  "'w env \<Rightarrow> (addr \<times> interval_t \<times> addr option) list \<Rightarrow> 'w runtime \<Rightarrow> 'w runtime" where
  "do_schedules env reqs s = foldl (\<lambda>st (tr, d, pl). snd (schedule env tr d pl st)) s reqs"

definition invoke :: "'w env \<Rightarrow> addr \<Rightarrow> 'w runtime \<Rightarrow> 'w runtime" where
  "invoke env r s =
     (let rc = reaction_tab s r;
          (reqs, w) = body_fn env (rfunction rc) (rself rc) s
      in do_schedules env reqs (s\<lparr>world := w, trace := trace s @ [Invoked r]\<rparr>))"

text \<open>
  Modelled from the spec: \<^verbatim>\<open>trigger_output_reactions(reaction)\<close>, supplied by the
  generator: it enqueues the reactions downstream of the outputs the reaction produced.
\<close>

definition trigger_output_reactions :: "'w env \<Rightarrow> addr \<Rightarrow> 'w runtime \<Rightarrow> 'w runtime" where
  "trigger_output_reactions env r s =
     s\<lparr>reaction_q := foldl (\<lambda>q x. pqueue_insert (reaction_key s) x q) (reaction_q s)
                         (outputs_fn env r (world s)),
       trace := trace s @ [Chained r]\<rparr>"

text \<open>Lines 120 to 143: the deadline check made before a reaction is invoked.\<close>

definition check_deadline :: "'w env \<Rightarrow> addr \<Rightarrow> 'w runtime \<Rightarrow> 'w runtime" where
  "check_deadline env r s =
     (if deadline (reaction_tab s r) > 0 then
        (let (physical_time, w) = clock_fn env (world s);
             s1 = s\<lparr>world := w, trace := trace s @ [ClockSampled physical_time]\<rparr>
         in if physical_time > wrap64 (current_time s1 + deadline (reaction_tab s1 r)) then
              (case deadline_violation (reaction_tab s1 r) of
                 None \<Rightarrow> s1
               | Some tr \<Rightarrow> foldl (\<lambda>st h. invoke env h st) s1 (reactions (triggers s1 tr)))
            else s1)
      else s)"

text \<open>Lines 113 to 150: the body of the loop over \<^verbatim>\<open>reaction_q\<close>, for the popped reaction.\<close>

definition react_step :: "'w env \<Rightarrow> addr \<Rightarrow> 'w runtime \<Rightarrow> 'w runtime" where
  "react_step env r s = trigger_output_reactions env r (invoke env r (check_deadline env r s))"

fun react_loop :: "nat \<Rightarrow> 'w env \<Rightarrow> 'w runtime \<Rightarrow> error + 'w runtime" where
  "react_loop n env s =
     (case reaction_q s of
        [] \<Rightarrow> Inr s
      | r # q \<Rightarrow>
          (case n of
             0 \<Rightarrow> Inl OutOfFuel
           | Suc m \<Rightarrow> react_loop m env (react_step env r (s\<lparr>reaction_q := q\<rparr>))))"

section \<open>Draining the events of the current time\<close>

text \<open>
  Lines 81 to 92 for the popped event \<open>e\<close>: the reactions of its trigger are put on
  \<^verbatim>\<open>reaction_q\<close> and a periodic trigger is rescheduled.
\<close>

definition enqueue_and_reschedule :: "'w env \<Rightarrow> addr \<Rightarrow> 'w runtime \<Rightarrow> 'w runtime" where
  "enqueue_and_reschedule env e s =
     (let tr = trigger (events s e);
          s1 = s\<lparr>reaction_q := foldl (\<lambda>q x. pqueue_insert (reaction_key s) x q)
                                  (reaction_q s) (reactions (triggers s tr))\<rparr>
      in if period (triggers s1 tr) > 0
         then snd (internal_schedule env tr
                     (wrap64 (period (triggers s1 tr) - offset (triggers s1 tr))) None s1)
         else s1)"

text \<open>
  Lines 95 to 106: the payload pointer is copied into the trigger, the time of the
  event is set to zero and the event is recycled or parked in \<^verbatim>\<open>free_q\<close>.
\<close>

definition park_event :: "addr \<Rightarrow> 'w runtime \<Rightarrow> 'w runtime" where
  "park_event e s =
     (let tr = trigger (events s e);
          s1 = s\<lparr>triggers := (triggers s)
                  (tr := (triggers s tr)\<lparr>payload := ev_payload (events s e)\<rparr>)\<rparr>;
          s2 = s1\<lparr>events := (events s1)(e := (events s1 e)\<lparr>time := 0\<rparr>)\<rparr>
      in if ev_payload (events s2 e) = None
         then s2\<lparr>recycle_q := pqueue_insert (event_key s2) e (recycle_q s2)\<rparr>
         else s2\<lparr>free_q := pqueue_insert (event_key s2) e (free_q s2)\<rparr>)"

text \<open>
  Lines 80 to 106: the body of the do-while loop, for the event \<open>e\<close> that the pop on
  line 80 answered.
\<close>

definition drain_step :: "'w env \<Rightarrow> addr \<Rightarrow> 'w runtime \<Rightarrow> 'w runtime" where
  "drain_step env e s =
     park_event e
       (enqueue_and_reschedule env e
          (s\<lparr>trace := trace s @ [Popped e (ev_payload (events s e))]\<rparr>))"

text \<open>
  Lines 79 to 109.  The first pop is unconditional: on an empty queue it answers
  \<^verbatim>\<open>NULL\<close> and \<^verbatim>\<open>event->trigger\<close> dereferences it.
\<close>

fun drain :: "nat \<Rightarrow> 'w env \<Rightarrow> 'w runtime \<Rightarrow> error + 'w runtime" where
  "drain 0 env s = Inl OutOfFuel"
| "drain (Suc n) env s =
     (case pqueue_pop (event_q s) of
        (None, _) \<Rightarrow> Inl NullPointer
      | (Some e, q) \<Rightarrow>
          (let s1 = drain_step env e (s\<lparr>event_q := q\<rparr>)
           in case pqueue_peek (event_q s1) of
                None \<Rightarrow> Inr s1
              | Some e' \<Rightarrow>
                  if time (events s1 e') = current_time s1 then drain n env s1 else Inr s1))"

section \<open>Releasing payloads\<close>

text \<open>Lines 154 to 159; \<^verbatim>\<open>free(NULL)\<close> does nothing.\<close>

definition free_payload :: "addr option \<Rightarrow> action list" where
  "free_payload p = (case p of None \<Rightarrow> [] | Some a \<Rightarrow> [Freed a])"

fun free_loop :: "addr list \<Rightarrow> 'w runtime \<Rightarrow> 'w runtime" where
  "free_loop [] s = s\<lparr>free_q := []\<rparr>"
| "free_loop (e # es) s =
     free_loop es
       (s\<lparr>free_q := es,
          trace := trace s @ free_payload (ev_payload (events s e)),
          recycle_q := pqueue_insert (event_key s) e (recycle_q s)\<rparr>)"

section \<open>One iteration: next\<close>

text \<open>Lines 74 to 165, from the start-of-step hook to the stop check.\<close>

definition next_body :: "nat \<Rightarrow> 'w env \<Rightarrow> 'w runtime \<Rightarrow> error + (int \<times> 'w runtime)" where
  "next_body fuel env s =
     (let s1 = s\<lparr>world := start_time_step_fn env (world s),
                trace := trace s @ [StartTimeStep]\<rparr>
      in case drain fuel env s1 of
           Inl err \<Rightarrow> Inl err
         | Inr s2 \<Rightarrow>
             (case react_loop fuel env s2 of
                Inl err \<Rightarrow> Inl err
              | Inr s3 \<Rightarrow>
                  (let s4 = free_loop (free_q s3) s3
                   in if stop_time s4 > 0 \<and> current_time s4 \<ge> stop_time s4
                      then Inr (0, s4\<lparr>stop_requested := True\<rparr>)
                      else Inr (1, s4))))"

text \<open>The call of \<^verbatim>\<open>wait_until\<close> on line 53.\<close>

definition do_wait :: "'w env \<Rightarrow> instant_t \<Rightarrow> 'w runtime \<Rightarrow> int \<times> 'w runtime" where
  "do_wait env t s =
     (let (r, s1) = wait_until_fn env t s
      in (r, s1\<lparr>trace := trace s @ [Waited t]\<rparr>))"

text \<open>Lines 53 to 70 and what follows, given the event peeked before the wait.\<close>

definition after_wait ::
  "nat \<Rightarrow> 'w env \<Rightarrow> addr option \<Rightarrow> int \<times> 'w runtime \<Rightarrow> error + (int \<times> 'w runtime)" where
  "after_wait fuel env event rs =
     (let (r, s) = rs in
      if r < 0 then
        (let new_event = pqueue_peek (event_q s) in
         if new_event = event then
           (if (stop_time s > 0 \<and> current_time s \<ge> stop_time s) \<or> new_event = None
            then Inr (0, s\<lparr>stop_requested := True\<rparr>)
            else next_body fuel env s)
         else
           (case new_event of
              None \<Rightarrow> Inl NullPointer
            | Some _ \<Rightarrow> next_body fuel env s))
      else next_body fuel env s)"

text \<open>\<^verbatim>\<open>next\<close>, lines 38 to 166.\<close>

definition next_iter :: "nat \<Rightarrow> 'w env \<Rightarrow> 'w runtime \<Rightarrow> error + (int \<times> 'w runtime)" where
  "next_iter fuel env s =
     (let event = pqueue_peek (event_q s) in
      if event = None \<and> \<not> wait_specified s then Inr (0, s)
      else
        (let next_time = (case event of None \<Rightarrow> LLONG_MAX | Some e \<Rightarrow> time (events s e))
         in after_wait fuel env event (do_wait env next_time s)))"

section \<open>The lifecycle: wrapup and main\<close>

text \<open>Lines 169 to 180: the two elapsed times are printed.\<close>

definition wrapup :: "'w env \<Rightarrow> 'w runtime \<Rightarrow> 'w runtime" where
  "wrapup env s =
     (let (physicalEndTime, w) = clock_fn env (world s)
      in s\<lparr>world := w,
           trace := trace s @ [Printed (wrap64 (current_time s - physicalStartTime s))
                                       (wrap64 (physicalEndTime - physicalStartTime s))]\<rparr>)"

text \<open>Line 186: \<^verbatim>\<open>while (next() != 0 && !stop_requested);\<close>\<close>

fun main_loop :: "nat \<Rightarrow> nat \<Rightarrow> 'w env \<Rightarrow> 'w runtime \<Rightarrow> error + 'w runtime" where
  "main_loop 0 fuel env s = Inl OutOfFuel"
| "main_loop (Suc n) fuel env s =
     (case next_iter fuel env s of
        Inl err \<Rightarrow> Inl err
      | Inr (r, s1) \<Rightarrow>
          if r \<noteq> 0 \<and> \<not> stop_requested s1 then main_loop n fuel env s1 else Inr s1)"

text \<open>
  Modelled from the spec: \<^verbatim>\<open>initialize\<close>, \<^verbatim>\<open>__start_timers\<close> and
  \<^verbatim>\<open>process_args\<close>, whose code is generated or lives in \<^verbatim>\<open>reactor_common.c\<close>.
  \<^verbatim>\<open>__start_timers\<close> queues the first event of every timer trigger, with a null
  payload, at its declared offset after the current time.
\<close>

definition initialize :: "'w env \<Rightarrow> 'w runtime \<Rightarrow> 'w runtime" where
  "initialize env s = (let s1 = initialize_fn env s in s1\<lparr>trace := trace s @ [Initialized]\<rparr>)"

definition start_timers :: "'w env \<Rightarrow> 'w runtime \<Rightarrow> 'w runtime" where
  "start_timers env s =
     foldl (\<lambda>st tr. enqueue_event tr (wrap64 (current_time st + offset (triggers st tr))) None st)
       (s\<lparr>trace := trace s @ [TimersStarted]\<rparr>) (start_timers_fn env s)"

definition process_args :: "'w env \<Rightarrow> string list \<Rightarrow> 'w runtime \<Rightarrow> bool \<times> 'w runtime" where
  "process_args env argv s =
     (let (ok, s1) = process_args_fn env argv s in (ok, s1\<lparr>trace := trace s\<rparr>))"

text \<open>\<^verbatim>\<open>main\<close>, lines 182 to 192.\<close>

definition main ::
  "nat \<Rightarrow> nat \<Rightarrow> 'w env \<Rightarrow> string list \<Rightarrow> 'w runtime \<Rightarrow> error + (int \<times> 'w runtime)" where
  "main n fuel env argv s =
     (let (ok, s1) = process_args env argv s in
      if ok then
        (case main_loop n fuel env (start_timers env (initialize env s1)) of
           Inl err \<Rightarrow> Inl err
         | Inr s2 \<Rightarrow> Inr (0, wrapup env s2))
      else Inr (- 1, s1))"

section \<open>Reading the trace\<close>



fun is_wait :: "action \<Rightarrow> bool" where
  "is_wait (Waited _) = True"
| "is_wait _ = False"

fun is_free :: "action \<Rightarrow> bool" where
  "is_free (Freed _) = True"
| "is_free _ = False"

text \<open>
  The frees owed for the pops in a trace, one for each popped event with a payload, in
  the order of the pops; and the events those pops park in \<^verbatim>\<open>free_q\<close>.
\<close>

fun frees_owed :: "action list \<Rightarrow> action list" where
  "frees_owed [] = []"
| "frees_owed (Popped e (Some p) # t) = Freed p # frees_owed t"
| "frees_owed (_ # t) = frees_owed t"

fun parked_events :: "action list \<Rightarrow> addr list" where
  "parked_events [] = []"
| "parked_events (Popped e (Some p) # t) = e # parked_events t"
| "parked_events (_ # t) = parked_events t"


text \<open>The frees the free loop of lines 154 to 159 makes when it starts in \<open>s\<close>.\<close>

definition pending_frees :: "'w runtime \<Rightarrow> action list" where
  "pending_frees s = concat (map (\<lambda>e. free_payload (ev_payload (events s e))) (free_q s))"

section \<open>A small program to run the definitions on\<close>

text \<open>
  Trigger 0 is a timer with offset 0 and period 50 firing reaction 0, which has a
  deadline of 10 and the violation trigger 1; trigger 1 fires the handler reaction 1;
  trigger 2 is a timer with offset 10 and period 50 firing reaction 2.  The world is
  the reading of the physical clock.
\<close>

definition demo_triggers :: "addr \<Rightarrow> trigger_t" where
  "demo_triggers a =
     (if a = 0 then \<lparr>reactions = [0], offset = 0, period = 50, payload = None\<rparr>
      else if a = 1 then \<lparr>reactions = [1], offset = 0, period = 0, payload = None\<rparr>
      else \<lparr>reactions = [2], offset = 10, period = 50, payload = None\<rparr>)"

definition demo_reactions :: "addr \<Rightarrow> reaction_t" where
  "demo_reactions r =
     (if r = 0 then \<lparr>rfunction = 0, rself = 0, index = 0, deadline = 10,
                     deadline_violation = Some 1\<rparr>
      else \<lparr>rfunction = r, rself = 0, index = int r, deadline = 0,
             deadline_violation = None\<rparr>)"

definition demo_state :: "instant_t runtime" where
  "demo_state =
     \<lparr>current_time = 100, stop_time = 0, stop_requested = False, wait_specified = False,
      physicalStartTime = 0, event_q = [], reaction_q = [], recycle_q = [], free_q = [],
      events = (\<lambda>_. \<lparr>time = 0, trigger = 0, ev_payload = None\<rparr>), next_fresh = 0,
      triggers = demo_triggers, reaction_tab = demo_reactions, handle_ctr = 0,
      trace = [], world = 0\<rparr>"

text \<open>
  A \<^verbatim>\<open>wait_until\<close> that never sleeps: it answers -1 and stops at the stop time when the
  requested time lies beyond it, and otherwise advances \<open>current_time\<close> and answers 0.
\<close>

definition demo_wait :: "instant_t \<Rightarrow> instant_t runtime \<Rightarrow> int \<times> instant_t runtime" where
  "demo_wait t s =
     (if stop_time s > 0 \<and> t > stop_time s then (- 1, s\<lparr>current_time := stop_time s\<rparr>)
      else (0, s\<lparr>current_time := t\<rparr>))"

definition demo_env :: "instant_t env" where
  "demo_env =
     \<lparr>wait_until_fn = demo_wait,
      start_time_step_fn = (\<lambda>w. w),
      clock_fn = (\<lambda>w. (w, w)),
      body_fn = (\<lambda>f self s. ([], world s)),
      outputs_fn = (\<lambda>r w. []),
      schedule_time_fn = (\<lambda>c t d. wrap64 (c + d)),
      process_args_fn = (\<lambda>argv s. (argv = [], s)),
      initialize_fn = (\<lambda>s. s\<lparr>current_time := 0\<rparr>),
      start_timers_fn = (\<lambda>s. [0])\<rparr>"

text \<open>
  The program with record 0 queued as an event of trigger \<open>tr\<close> at time \<open>t\<close>, and a
  \<^verbatim>\<open>wait_until\<close> that is interrupted at once: it answers -1 and changes nothing.
\<close>

definition demo_queued :: "instant_t \<Rightarrow> addr \<Rightarrow> instant_t runtime" where
  "demo_queued t tr =
     demo_state\<lparr>event_q := [0],
                events := (\<lambda>_. \<lparr>time = t, trigger = tr, ev_payload = None\<rparr>),
                next_fresh := 1\<rparr>"

definition interrupted_env :: "instant_t env" where
  "interrupted_env = demo_env\<lparr>wait_until_fn := (\<lambda>t s. (- 1, s))\<rparr>"

text \<open>
  The program without a timer, whose \<^verbatim>\<open>process_args\<close> accepts every command line and
  sets \<^verbatim>\<open>wait_specified\<close> when \<^verbatim>\<open>-wait\<close> is given.
\<close>

definition idle_env :: "instant_t env" where
  "idle_env =
     demo_env\<lparr>start_timers_fn := (\<lambda>s. []),
               process_args_fn := (\<lambda>argv s. (True, s\<lparr>wait_specified := (''-wait'' \<in> set argv)\<rparr>))\<rparr>"

text \<open>
  The program whose only timer is trigger 2, with a \<^verbatim>\<open>__schedule\<close> that adds the offset
  of the trigger.
\<close>

definition offset_env :: "instant_t env" where
  "offset_env =
     demo_env\<lparr>schedule_time_fn := (\<lambda>c t d. wrap64 (c + offset t + d)),
               start_timers_fn := (\<lambda>s. [2])\<rparr>"

section \<open>Well-formed event pools\<close>

text \<open>
  Every record in a queue has been allocated and is in one queue only, once; the event
  queue is in the order of the times; the events parked in \<^verbatim>\<open>free_q\<close> have the time 0.
\<close>

definition pools_wf :: "'w runtime \<Rightarrow> bool" where
  "pools_wf s \<longleftrightarrow>
     distinct (recycle_q s) \<and> distinct (event_q s) \<and> distinct (free_q s)
     \<and> set (recycle_q s) \<inter> (set (event_q s) \<union> set (free_q s)) = {}
     \<and> set (event_q s) \<inter> set (free_q s) = {}
     \<and> (\<forall>e \<in> set (recycle_q s) \<union> set (event_q s) \<union> set (free_q s). e < next_fresh s)
     \<and> sorted (map (event_key s) (event_q s))
     \<and> (\<forall>e \<in> set (free_q s). time (events s e) = 0)"

text \<open>
  Every queued event of \<open>s\<close> is still queued, with the same contents, in \<open>s'\<close>, and
  the events parked in \<^verbatim>\<open>free_q\<close> are parked there still, with the same contents.
\<close>

definition keeps_queued :: "'w runtime \<Rightarrow> 'w runtime \<Rightarrow> bool" where
  "keeps_queued s s' \<longleftrightarrow>
     pools_wf s'
     \<and> (\<forall>x \<in> set (event_q s). x \<in> set (event_q s') \<and> events s' x = events s x)
     \<and> free_q s' = free_q s
     \<and> (\<forall>x \<in> set (free_q s). events s' x = events s x)"

text \<open>Well-formed pools with no queued event before the current time.\<close>

definition queue_wf :: "'w runtime \<Rightarrow> bool" where
  "queue_wf s \<longleftrightarrow>
     pools_wf s \<and> (\<forall>x \<in> set (event_q s). current_time s \<le> time (events s x))"

text \<open>
  The periods of the timers are in range at the current time: neither the delay
  \<open>period - offset\<close> of line 91 nor the next instant \<open>current_time + period\<close> overflows.
\<close>

definition timers_in_range :: "'w runtime \<Rightarrow> bool" where
  "timers_in_range s \<longleftrightarrow>
     (\<forall>tr. period (triggers s tr) > 0 \<longrightarrow>
        in64 (period (triggers s tr) - offset (triggers s tr))
        \<and> in64 (current_time s + period (triggers s tr)))"


section \<open>How the trace grows\<close>

text \<open>The actions of the drain loop, and those of the reaction loop.\<close>

fun drain_action :: "action \<Rightarrow> bool" where
  "drain_action (Popped _ _) = True"
| "drain_action (Scheduled _ _ _) = True"
| "drain_action _ = False"

fun react_action :: "action \<Rightarrow> bool" where
  "react_action (Scheduled _ _ _) = True"
| "react_action (ClockSampled _) = True"
| "react_action (Invoked _) = True"
| "react_action (Chained _) = True"
| "react_action _ = False"

text \<open>The actions in the trace of \<open>s'\<close> that come after the trace of \<open>s\<close>.\<close>

definition added :: "'w runtime \<Rightarrow> 'w runtime \<Rightarrow> action list" where
  "added s s' = drop (length (trace s)) (trace s')"

text \<open>The trace of \<open>s'\<close> is the trace of \<open>s\<close> followed by actions that satisfy \<open>P\<close>.\<close>

definition extends_by :: "(action \<Rightarrow> bool) \<Rightarrow> 'w runtime \<Rightarrow> 'w runtime \<Rightarrow> bool" where
  "extends_by P s s' \<longleftrightarrow> (\<exists>t. trace s' = trace s @ t \<and> list_all P t)"

section \<open>Facts about the queues and the scheduler\<close>

declare react_loop.simps [simp del]


lemma wrap64_id: "in64 x \<Longrightarrow> wrap64 x = x"
  by (simp add: in64_def wrap64_def)

lemma set_pqueue_insert: "set (pqueue_insert k x xs) = insert x (set xs)"
  by (induction xs) auto

lemma sorted_pqueue_insert:
  "sorted (map k xs) \<Longrightarrow> sorted (map k (pqueue_insert k x xs))"
proof (induction xs)
  case Nil
  show ?case by simp
next
  case (Cons y ys)
  then show ?case by (auto simp: set_pqueue_insert)
qed

lemma distinct_pqueue_insert:
  "distinct xs \<Longrightarrow> x \<notin> set xs \<Longrightarrow> distinct (pqueue_insert k x xs)"
  by (induction xs) (auto simp: set_pqueue_insert)

lemma pqueue_insert_cong:
  "k x = k' x \<Longrightarrow> \<forall>y \<in> set xs. k y = k' y \<Longrightarrow> pqueue_insert k x xs = pqueue_insert k' x xs"
  by (induction xs) auto

lemma pqueue_insert_last:
  "\<forall>y \<in> set xs. k y \<le> k x \<Longrightarrow> pqueue_insert k x xs = xs @ [x]"
  by (induction xs) auto

lemma event_key_eq: "event_key s = (\<lambda>e. time (events s e))"
  by (rule ext) (simp add: event_key_def)

lemma pools_wf_upd [simp]:
  "pools_wf (s\<lparr>world := w\<rparr>) = pools_wf s"
  "pools_wf (s\<lparr>trace := t\<rparr>) = pools_wf s"
  "pools_wf (s\<lparr>reaction_q := rq\<rparr>) = pools_wf s"
  "pools_wf (s\<lparr>stop_requested := b\<rparr>) = pools_wf s"
  "pools_wf (s\<lparr>current_time := c\<rparr>) = pools_wf s"
  "pools_wf (s\<lparr>handle_ctr := n\<rparr>) = pools_wf s"
  by (simp_all add: pools_wf_def event_key_eq)

lemma enqueue_event_event:
  "events (enqueue_event tr t p s) (acquire_event s) = \<lparr>time = t, trigger = tr, ev_payload = p\<rparr>"
  by (simp add: enqueue_event_def Let_def split: list.splits)

lemma enqueue_event_event_q:
  "set (event_q (enqueue_event tr t p s)) = insert (acquire_event s) (set (event_q s))"
  by (simp add: enqueue_event_def Let_def set_pqueue_insert split: list.splits)

lemma enqueue_event_event_q_eq:
  "event_q (enqueue_event tr t p s) =
     pqueue_insert (event_key (enqueue_event tr t p s)) (acquire_event s) (event_q s)"
  by (simp add: enqueue_event_def Let_def event_key_eq split: list.splits)

lemma enqueue_event_frame:
  "current_time (enqueue_event tr t p s) = current_time s"
  "stop_time (enqueue_event tr t p s) = stop_time s"
  "stop_requested (enqueue_event tr t p s) = stop_requested s"
  "wait_specified (enqueue_event tr t p s) = wait_specified s"
  "triggers (enqueue_event tr t p s) = triggers s"
  "reaction_tab (enqueue_event tr t p s) = reaction_tab s"
  "reaction_q (enqueue_event tr t p s) = reaction_q s"
  "free_q (enqueue_event tr t p s) = free_q s"
  "world (enqueue_event tr t p s) = world s"
  "physicalStartTime (enqueue_event tr t p s) = physicalStartTime s"
  "trace (enqueue_event tr t p s) = trace s"
  "handle_ctr (enqueue_event tr t p s) = handle_ctr s"
  by (simp_all add: enqueue_event_def Let_def split: list.splits)

lemma enqueue_event_pools:
  "recycle_q (enqueue_event tr t p s) = tl (recycle_q s)"
  "next_fresh (enqueue_event tr t p s) =
     (if recycle_q s = [] then Suc (next_fresh s) else next_fresh s)"
  "x \<noteq> acquire_event s \<Longrightarrow> events (enqueue_event tr t p s) x = events s x"
  by (simp_all add: enqueue_event_def Let_def split: list.splits)

lemma internal_schedule_enqueue:
  "snd (internal_schedule env tr d p s) =
     (enqueue_event tr (schedule_time_fn env (current_time s) (triggers s tr) d) p s)
       \<lparr>handle_ctr := handle_ctr s + 1, trace := trace s @ [Scheduled tr d p]\<rparr>"
  by (simp add: internal_schedule_def Let_def enqueue_event_frame)

lemma internal_schedule_event:
  "events (snd (internal_schedule env tr d p s)) (acquire_event s) =
     \<lparr>time = schedule_time_fn env (current_time s) (triggers s tr) d, trigger = tr,
      ev_payload = p\<rparr>"
  by (simp add: internal_schedule_enqueue enqueue_event_event)

lemma internal_schedule_event_q:
  "set (event_q (snd (internal_schedule env tr d p s))) = insert (acquire_event s) (set (event_q s))"
  by (simp add: internal_schedule_enqueue enqueue_event_event_q)

lemma internal_schedule_event_q_eq:
  "event_q (snd (internal_schedule env tr d p s)) =
     pqueue_insert (event_key (snd (internal_schedule env tr d p s))) (acquire_event s) (event_q s)"
  using enqueue_event_event_q_eq [of tr _ p s]
  by (simp add: internal_schedule_enqueue event_key_eq)

lemma internal_schedule_frame:
  "current_time (snd (internal_schedule env tr d p s)) = current_time s"
  "stop_time (snd (internal_schedule env tr d p s)) = stop_time s"
  "stop_requested (snd (internal_schedule env tr d p s)) = stop_requested s"
  "wait_specified (snd (internal_schedule env tr d p s)) = wait_specified s"
  "triggers (snd (internal_schedule env tr d p s)) = triggers s"
  "reaction_tab (snd (internal_schedule env tr d p s)) = reaction_tab s"
  "reaction_q (snd (internal_schedule env tr d p s)) = reaction_q s"
  "free_q (snd (internal_schedule env tr d p s)) = free_q s"
  "world (snd (internal_schedule env tr d p s)) = world s"
  "physicalStartTime (snd (internal_schedule env tr d p s)) = physicalStartTime s"
  "trace (snd (internal_schedule env tr d p s)) = trace s @ [Scheduled tr d p]"
  by (simp_all add: internal_schedule_enqueue enqueue_event_frame)

lemma schedule_frame:
  "current_time (snd (schedule env tr d p s)) = current_time s"
  "stop_time (snd (schedule env tr d p s)) = stop_time s"
  "stop_requested (snd (schedule env tr d p s)) = stop_requested s"
  "wait_specified (snd (schedule env tr d p s)) = wait_specified s"
  "triggers (snd (schedule env tr d p s)) = triggers s"
  "reaction_tab (snd (schedule env tr d p s)) = reaction_tab s"
  "reaction_q (snd (schedule env tr d p s)) = reaction_q s"
  "free_q (snd (schedule env tr d p s)) = free_q s"
  "world (snd (schedule env tr d p s)) = world s"
  "physicalStartTime (snd (schedule env tr d p s)) = physicalStartTime s"
  "trace (snd (schedule env tr d p s)) = trace s @ [Scheduled tr (wrap64 (offset (triggers s tr) + d)) p]"
  by (simp_all add: schedule_def internal_schedule_frame)

lemma do_schedules_Nil: "do_schedules env [] s = s"
  by (simp add: do_schedules_def)

lemma do_schedules_Cons:
  "do_schedules env ((tr, d, p) # reqs) s = do_schedules env reqs (snd (schedule env tr d p s))"
  by (simp add: do_schedules_def)

lemma do_schedules_frame:
  "current_time (do_schedules env reqs s) = current_time s
   \<and> stop_time (do_schedules env reqs s) = stop_time s
   \<and> stop_requested (do_schedules env reqs s) = stop_requested s
   \<and> wait_specified (do_schedules env reqs s) = wait_specified s
   \<and> triggers (do_schedules env reqs s) = triggers s
   \<and> reaction_tab (do_schedules env reqs s) = reaction_tab s
   \<and> reaction_q (do_schedules env reqs s) = reaction_q s
   \<and> free_q (do_schedules env reqs s) = free_q s
   \<and> world (do_schedules env reqs s) = world s
   \<and> physicalStartTime (do_schedules env reqs s) = physicalStartTime s"
proof (induction reqs arbitrary: s)
  case Nil
  show ?case by (simp add: do_schedules_Nil)
next
  case (Cons a reqs)
  obtain tr d p where a: "a = (tr, d, p)" by (cases a) auto
  show ?case unfolding a do_schedules_Cons
    using Cons.IH [of "snd (schedule env tr d p s)"] by (simp add: schedule_frame)
qed

lemma do_schedules_event_q: "set (event_q s) \<subseteq> set (event_q (do_schedules env reqs s))"
proof (induction reqs arbitrary: s)
  case Nil
  show ?case by (simp add: do_schedules_Nil)
next
  case (Cons a reqs)
  obtain tr d p where a: "a = (tr, d, p)" by (cases a) auto
  have "set (event_q s) \<subseteq> set (event_q (snd (schedule env tr d p s)))"
    by (auto simp: schedule_def internal_schedule_event_q)
  then show ?case unfolding a do_schedules_Cons
    using Cons.IH [of "snd (schedule env tr d p s)"] by blast
qed


section \<open>Facts about invoking reactions\<close>


lemma invoke_frame:
  "current_time (invoke env r s) = current_time s
   \<and> stop_time (invoke env r s) = stop_time s
   \<and> stop_requested (invoke env r s) = stop_requested s
   \<and> wait_specified (invoke env r s) = wait_specified s
   \<and> triggers (invoke env r s) = triggers s
   \<and> reaction_tab (invoke env r s) = reaction_tab s
   \<and> reaction_q (invoke env r s) = reaction_q s
   \<and> free_q (invoke env r s) = free_q s
   \<and> physicalStartTime (invoke env r s) = physicalStartTime s"
  by (simp add: invoke_def Let_def do_schedules_frame split: prod.splits)

lemma invoke_event_q: "set (event_q s) \<subseteq> set (event_q (invoke env r s))"
proof -
  obtain reqs w where b: "body_fn env (rfunction (reaction_tab s r)) (rself (reaction_tab s r)) s = (reqs, w)"
    by (cases "body_fn env (rfunction (reaction_tab s r)) (rself (reaction_tab s r)) s") auto
  show ?thesis
    using do_schedules_event_q [of "s\<lparr>world := w, trace := trace s @ [Invoked r]\<rparr>" env reqs]
    by (simp add: invoke_def Let_def b)
qed


lemma invoke_all_frame:
  "current_time (foldl (\<lambda>st h. invoke env h st) s hs) = current_time s
   \<and> stop_time (foldl (\<lambda>st h. invoke env h st) s hs) = stop_time s
   \<and> stop_requested (foldl (\<lambda>st h. invoke env h st) s hs) = stop_requested s
   \<and> wait_specified (foldl (\<lambda>st h. invoke env h st) s hs) = wait_specified s
   \<and> triggers (foldl (\<lambda>st h. invoke env h st) s hs) = triggers s
   \<and> reaction_tab (foldl (\<lambda>st h. invoke env h st) s hs) = reaction_tab s
   \<and> reaction_q (foldl (\<lambda>st h. invoke env h st) s hs) = reaction_q s
   \<and> free_q (foldl (\<lambda>st h. invoke env h st) s hs) = free_q s
   \<and> physicalStartTime (foldl (\<lambda>st h. invoke env h st) s hs) = physicalStartTime s"
  by (induction hs arbitrary: s) (simp_all add: invoke_frame)

lemma invoke_all_event_q:
  "set (event_q s) \<subseteq> set (event_q (foldl (\<lambda>st h. invoke env h st) s hs))"
proof (induction hs arbitrary: s)
  case Nil
  show ?case by simp
next
  case (Cons h hs)
  show ?case using Cons.IH [of "invoke env h s"] invoke_event_q [of s env h] by auto
qed


lemma check_deadline_frame:
  "current_time (check_deadline env r s) = current_time s
   \<and> stop_time (check_deadline env r s) = stop_time s
   \<and> stop_requested (check_deadline env r s) = stop_requested s
   \<and> wait_specified (check_deadline env r s) = wait_specified s
   \<and> triggers (check_deadline env r s) = triggers s
   \<and> reaction_tab (check_deadline env r s) = reaction_tab s
   \<and> reaction_q (check_deadline env r s) = reaction_q s
   \<and> free_q (check_deadline env r s) = free_q s
   \<and> physicalStartTime (check_deadline env r s) = physicalStartTime s"
  by (simp add: check_deadline_def Let_def invoke_all_frame split: prod.splits option.splits)

lemma check_deadline_event_q: "set (event_q s) \<subseteq> set (event_q (check_deadline env r s))"
proof (cases "clock_fn env (world s)")
  case (Pair p w)
  show ?thesis
    using invoke_all_event_q [of "s\<lparr>world := w, trace := trace s @ [ClockSampled p]\<rparr>" env]
    by (auto simp: check_deadline_def Let_def Pair split: option.splits)
qed


lemma trigger_output_reactions_frame:
  "current_time (trigger_output_reactions env r s) = current_time s
   \<and> stop_time (trigger_output_reactions env r s) = stop_time s
   \<and> stop_requested (trigger_output_reactions env r s) = stop_requested s
   \<and> wait_specified (trigger_output_reactions env r s) = wait_specified s
   \<and> triggers (trigger_output_reactions env r s) = triggers s
   \<and> reaction_tab (trigger_output_reactions env r s) = reaction_tab s
   \<and> event_q (trigger_output_reactions env r s) = event_q s
   \<and> events (trigger_output_reactions env r s) = events s
   \<and> free_q (trigger_output_reactions env r s) = free_q s
   \<and> recycle_q (trigger_output_reactions env r s) = recycle_q s
   \<and> physicalStartTime (trigger_output_reactions env r s) = physicalStartTime s
   \<and> trace (trigger_output_reactions env r s) = trace s @ [Chained r]"
  by (simp add: trigger_output_reactions_def)


section \<open>The reactions keep the pools well-formed\<close>


lemma keeps_queued_refl: "pools_wf s \<Longrightarrow> keeps_queued s s"
  by (simp add: keeps_queued_def)

lemma keeps_queued_trans: "keeps_queued s s1 \<Longrightarrow> keeps_queued s1 s2 \<Longrightarrow> keeps_queued s s2"
  by (simp add: keeps_queued_def)

lemma internal_schedule_pools:
  "recycle_q (snd (internal_schedule env tr d p s)) = tl (recycle_q s)"
  "next_fresh (snd (internal_schedule env tr d p s)) =
     (if recycle_q s = [] then Suc (next_fresh s) else next_fresh s)"
  "x \<noteq> acquire_event s \<Longrightarrow> events (snd (internal_schedule env tr d p s)) x = events s x"
  by (simp_all add: internal_schedule_enqueue enqueue_event_pools)

lemma acquire_event_not_queued:
  "pools_wf s \<Longrightarrow> x \<in> set (event_q s) \<union> set (free_q s) \<Longrightarrow> x \<noteq> acquire_event s"
  by (auto simp: pools_wf_def acquire_event_def split: list.splits)

lemma enqueue_event_keeps:
  assumes "pools_wf s"
  shows "keeps_queued s (enqueue_event tr t p s)"
proof -
  let ?s' = "enqueue_event tr t p s" and ?a = "acquire_event s"
  have na: "\<forall>x \<in> set (event_q s) \<union> set (free_q s). x \<noteq> ?a"
    using acquire_event_not_queued [OF assms] by blast
  have same: "\<forall>x \<in> set (event_q s). x \<in> set (event_q ?s') \<and> events ?s' x = events s x"
    using na by (simp add: enqueue_event_event_q enqueue_event_pools)
  have samef: "\<forall>x \<in> set (free_q s). events ?s' x = events s x"
    using na by (simp add: enqueue_event_pools)
  have keys: "map (event_key ?s') (event_q s) = map (event_key s) (event_q s)"
    using same by (simp add: event_key_def)
  from assms have so: "sorted (map (event_key s) (event_q s))" and di: "distinct (event_q s)"
    by (simp_all add: pools_wf_def)
  have so': "sorted (map (event_key ?s') (event_q s))" using so by (simp only: keys)
  have 1: "distinct (event_q ?s')"
    unfolding enqueue_event_event_q_eq using di na by (intro distinct_pqueue_insert) auto
  have 2: "sorted (map (event_key ?s') (event_q ?s'))"
    using sorted_pqueue_insert [OF so', of ?a]
    by (simp only: enqueue_event_event_q_eq [symmetric])
  have 3: "distinct (recycle_q ?s')" "distinct (free_q ?s')"
    using assms by (simp_all add: pools_wf_def enqueue_event_pools enqueue_event_frame distinct_tl)
  have tl: "set (tl xs) \<subseteq> set xs" for xs :: "addr list" by (cases xs) auto
  have a: "?a \<notin> set (tl (recycle_q s))"
    using assms by (cases "recycle_q s") (auto simp: pools_wf_def acquire_event_def)
  have 4: "set (recycle_q ?s') \<inter> (set (event_q ?s') \<union> set (free_q ?s')) = {}"
    using assms a tl [of "recycle_q s"]
    by (auto simp: pools_wf_def enqueue_event_pools enqueue_event_event_q
        enqueue_event_frame)
  have 5: "set (event_q ?s') \<inter> set (free_q ?s') = {}"
    using assms na by (auto simp: pools_wf_def enqueue_event_event_q enqueue_event_frame)
  have al: "?a < next_fresh ?s'"
    using assms by (cases "recycle_q s") (auto simp: pools_wf_def acquire_event_def enqueue_event_pools)
  have 6: "\<forall>e \<in> set (recycle_q ?s') \<union> set (event_q ?s') \<union> set (free_q ?s'). e < next_fresh ?s'"
  proof
    fix e assume "e \<in> set (recycle_q ?s') \<union> set (event_q ?s') \<union> set (free_q ?s')"
    then have "e = ?a \<or> e \<in> set (recycle_q s) \<union> set (event_q s) \<union> set (free_q s)"
      using tl [of "recycle_q s"]
      by (auto simp: enqueue_event_pools enqueue_event_event_q enqueue_event_frame)
    moreover have nf: "next_fresh s \<le> next_fresh ?s'" by (simp add: enqueue_event_pools)
    moreover have "\<forall>e \<in> set (recycle_q s) \<union> set (event_q s) \<union> set (free_q s). e < next_fresh s"
      using assms by (simp add: pools_wf_def)
    ultimately show "e < next_fresh ?s'" using al by (metis less_le_trans)
  qed
  have 7: "\<forall>e \<in> set (free_q ?s'). time (events ?s' e) = 0"
    using assms samef by (simp add: pools_wf_def enqueue_event_frame)
  have "pools_wf ?s'" using 1 2 3 4 5 6 7 by (simp add: pools_wf_def)
  with same samef show ?thesis by (simp add: keeps_queued_def enqueue_event_frame)
qed

lemma internal_schedule_keeps:
  assumes "pools_wf s"
  shows "keeps_queued s (snd (internal_schedule env tr d p s))"
  using enqueue_event_keeps [OF assms, of tr _ p]
  by (simp add: internal_schedule_enqueue keeps_queued_def)

lemma schedule_keeps: "pools_wf s \<Longrightarrow> keeps_queued s (snd (schedule env tr d p s))"
  by (simp add: schedule_def internal_schedule_keeps)

lemma do_schedules_keeps: "pools_wf s \<Longrightarrow> keeps_queued s (do_schedules env reqs s)"
proof (induction reqs arbitrary: s)
  case Nil
  then show ?case by (simp add: do_schedules_Nil keeps_queued_refl)
next
  case (Cons a reqs)
  obtain tr d p where a: "a = (tr, d, p)" by (cases a) auto
  have k: "keeps_queued s (snd (schedule env tr d p s))"
    using Cons.prems by (rule schedule_keeps)
  then have "pools_wf (snd (schedule env tr d p s))" by (simp add: keeps_queued_def)
  then have "keeps_queued (snd (schedule env tr d p s)) (do_schedules env reqs (snd (schedule env tr d p s)))"
    by (rule Cons.IH)
  with k show ?case unfolding a do_schedules_Cons by (rule keeps_queued_trans)
qed

lemma invoke_keeps:
  assumes "pools_wf s"
  shows "keeps_queued s (invoke env r s)"
proof -
  obtain reqs w where b:
    "body_fn env (rfunction (reaction_tab s r)) (rself (reaction_tab s r)) s = (reqs, w)"
    by (cases "body_fn env (rfunction (reaction_tab s r)) (rself (reaction_tab s r)) s") auto
  let ?t = "s\<lparr>world := w, trace := trace s @ [Invoked r]\<rparr>"
  have "pools_wf ?t" using assms by simp
  then have "keeps_queued ?t (do_schedules env reqs ?t)" by (rule do_schedules_keeps)
  then have "keeps_queued s (do_schedules env reqs ?t)" by (simp add: keeps_queued_def)
  then show ?thesis by (simp add: invoke_def Let_def b)
qed

lemma invoke_all_keeps:
  "pools_wf s \<Longrightarrow> keeps_queued s (foldl (\<lambda>st h. invoke env h st) s hs)"
proof (induction hs arbitrary: s)
  case Nil
  then show ?case by (simp add: keeps_queued_refl)
next
  case (Cons h hs)
  have k: "keeps_queued s (invoke env h s)" using Cons.prems by (rule invoke_keeps)
  then have "pools_wf (invoke env h s)" by (simp add: keeps_queued_def)
  then have "keeps_queued (invoke env h s) (foldl (\<lambda>st h. invoke env h st) (invoke env h s) hs)"
    by (rule Cons.IH)
  with k show ?case by (simp add: keeps_queued_trans)
qed

lemma check_deadline_keeps:
  assumes "pools_wf s"
  shows "keeps_queued s (check_deadline env r s)"
proof (cases "clock_fn env (world s)")
  case (Pair p w)
  let ?t = "s\<lparr>world := w, trace := trace s @ [ClockSampled p]\<rparr>"
  have t: "pools_wf ?t" using assms by simp
  have "keeps_queued ?t (foldl (\<lambda>st h. invoke env h st) ?t hs)" for hs
    using t by (rule invoke_all_keeps)
  then have f: "keeps_queued s (foldl (\<lambda>st h. invoke env h st) ?t hs)" for hs
    by (simp add: keeps_queued_def)
  have t': "keeps_queued s ?t" using assms by (simp add: keeps_queued_def)
  show ?thesis
    using f t' keeps_queued_refl [OF assms]
    by (simp add: check_deadline_def Let_def Pair split: option.splits)
qed

lemma trigger_output_reactions_keeps:
  "pools_wf s \<Longrightarrow> keeps_queued s (trigger_output_reactions env r s)"
  by (simp add: keeps_queued_def trigger_output_reactions_def)

lemma react_step_keeps:
  assumes "pools_wf s"
  shows "keeps_queued s (react_step env r s)"
proof -
  have 1: "keeps_queued s (check_deadline env r s)"
    using assms by (rule check_deadline_keeps)
  then have "pools_wf (check_deadline env r s)" by (simp add: keeps_queued_def)
  then have 2: "keeps_queued (check_deadline env r s) (invoke env r (check_deadline env r s))"
    by (rule invoke_keeps)
  then have "pools_wf (invoke env r (check_deadline env r s))" by (simp add: keeps_queued_def)
  then have 3: "keeps_queued (invoke env r (check_deadline env r s)) (react_step env r s)"
    unfolding react_step_def by (rule trigger_output_reactions_keeps)
  from 1 2 3 show ?thesis by (blast intro: keeps_queued_trans)
qed

lemma react_loop_keeps:
  "pools_wf s \<Longrightarrow> react_loop n env s = Inr s' \<Longrightarrow> keeps_queued s s'"
proof (induction n arbitrary: s)
  case 0
  then show ?case
    by (cases "reaction_q s") (simp_all add: react_loop.simps [of 0] keeps_queued_refl)
next
  case (Suc n)
  show ?case
  proof (cases "reaction_q s")
    case Nil
    with Suc.prems show ?thesis by (simp add: react_loop.simps [of "Suc n"] keeps_queued_refl)
  next
    case (Cons r q)
    let ?t = "s\<lparr>reaction_q := q\<rparr>"
    have t: "pools_wf ?t" using Suc.prems(1) by simp
    have k: "keeps_queued ?t (react_step env r ?t)" using t by (rule react_step_keeps)
    then have w: "pools_wf (react_step env r ?t)" by (simp add: keeps_queued_def)
    have "react_loop n env (react_step env r ?t) = Inr s'"
      using Suc.prems(2) Cons by (simp add: react_loop.simps [of "Suc n"])
    with w have "keeps_queued (react_step env r ?t) s'" by (rule Suc.IH)
    with k have "keeps_queued ?t s'" by (rule keeps_queued_trans)
    then show ?thesis by (simp add: keeps_queued_def)
  qed
qed

lemma free_loop_event_q: "event_q (free_loop q s) = event_q s \<and> events (free_loop q s) = events s"
  by (induction q arbitrary: s) simp_all

section \<open>The firing time of a scheduled event and the deadline policy\<close>


lemma react_step_frame:
  "current_time (react_step env r s) = current_time s
   \<and> stop_time (react_step env r s) = stop_time s
   \<and> stop_requested (react_step env r s) = stop_requested s
   \<and> wait_specified (react_step env r s) = wait_specified s
   \<and> triggers (react_step env r s) = triggers s
   \<and> reaction_tab (react_step env r s) = reaction_tab s
   \<and> free_q (react_step env r s) = free_q s
   \<and> physicalStartTime (react_step env r s) = physicalStartTime s"
  by (simp add: react_step_def trigger_output_reactions_frame invoke_frame check_deadline_frame)

lemma react_loop_frame:
  "react_loop n env s = Inr s' \<Longrightarrow>
     current_time s' = current_time s \<and> stop_time s' = stop_time s
     \<and> stop_requested s' = stop_requested s \<and> wait_specified s' = wait_specified s
     \<and> triggers s' = triggers s \<and> reaction_tab s' = reaction_tab s
     \<and> free_q s' = free_q s \<and> physicalStartTime s' = physicalStartTime s
     \<and> reaction_q s' = []"
proof (induction n arbitrary: s)
  case 0
  then show ?case by (cases "reaction_q s") (auto simp: react_loop.simps [of 0])
next
  case (Suc n)
  show ?case
  proof (cases "reaction_q s")
    case Nil
    with Suc.prems show ?thesis by (auto simp: react_loop.simps [of "Suc n"])
  next
    case (Cons r q)
    have "react_loop n env (react_step env r (s\<lparr>reaction_q := q\<rparr>)) = Inr s'"
      using Suc.prems Cons by (simp add: react_loop.simps [of "Suc n"])
    from Suc.IH [OF this] show ?thesis by (simp add: react_step_frame)
  qed
qed

lemma free_loop_frame:
  "current_time (free_loop q s) = current_time s \<and> stop_time (free_loop q s) = stop_time s
   \<and> stop_requested (free_loop q s) = stop_requested s
   \<and> wait_specified (free_loop q s) = wait_specified s
   \<and> triggers (free_loop q s) = triggers s \<and> reaction_tab (free_loop q s) = reaction_tab s
   \<and> reaction_q (free_loop q s) = reaction_q s
   \<and> physicalStartTime (free_loop q s) = physicalStartTime s
   \<and> world (free_loop q s) = world s
   \<and> free_q (free_loop q s) = []"
  by (induction q arbitrary: s) simp_all

lemmas demo_defs = demo_state_def demo_env_def demo_triggers_def demo_reactions_def demo_wait_def
  demo_queued_def interrupted_env_def offset_env_def wrap64_def

text \<open>
  Claim C1, as the code has it: \<^verbatim>\<open>schedule\<close> hands \<open>offset + extra_delay\<close> to
  \<^verbatim>\<open>__schedule\<close> as it is, negative or not (line 20), and the event is queued for the
  instant \<^verbatim>\<open>__schedule\<close> computes from it.  When \<^verbatim>\<open>__schedule\<close> queues an event its delay
  after the current time, that instant is \<open>current_time + offset + extra_delay\<close>, and it
  is at or after the current time exactly when \<open>offset + extra_delay\<close> is not negative.
  The sums are taken in the range of \<^verbatim>\<open>long long\<close>.
\<close>

theorem schedule_hands_over_unclamped:
  assumes "in64 (offset (triggers s tr) + d)"
  shows "let e = acquire_event s; s' = snd (schedule env tr d p s);
             net = offset (triggers s tr) + d
         in schedule env tr d p s = internal_schedule env tr net p s
            \<and> trace s' = trace s @ [Scheduled tr net p]
            \<and> e \<in> set (event_q s')
            \<and> events s' e =
                \<lparr>time = schedule_time_fn env (current_time s) (triggers s tr) net,
                 trigger = tr, ev_payload = p\<rparr>
            \<and> current_time s' = current_time s
            \<and> (queues_after_delay env \<and> in64 (current_time s + net) \<longrightarrow>
                 time (events s' e) = current_time s + offset (triggers s tr) + d
                 \<and> (current_time s' \<le> time (events s' e) \<longleftrightarrow> 0 \<le> net))"
proof -
  have w: "wrap64 (offset (triggers s tr) + d) = offset (triggers s tr) + d"
    using assms by (rule wrap64_id)
  have a: "queues_after_delay env \<Longrightarrow> in64 (current_time s + (offset (triggers s tr) + d)) \<Longrightarrow>
        schedule_time_fn env (current_time s) (triggers s tr) (offset (triggers s tr) + d) =
          current_time s + (offset (triggers s tr) + d)"
    by (simp add: queues_after_delay_def wrap64_id)
  show ?thesis
    using a
    by (auto simp: Let_def schedule_def w internal_schedule_event internal_schedule_event_q
        internal_schedule_frame)
qed

text \<open>
  Trigger 1 has the offset 0; at time 100, with an extra delay of 20, the event is
  queued for time 120.
\<close>

theorem schedule_hands_over_unclamped_witness:
  "in64 (offset (triggers demo_state 1) + 20)
   \<and> queues_after_delay demo_env
   \<and> trace (snd (schedule demo_env 1 20 None demo_state)) = [Scheduled 1 20 None]
   \<and> time (events (snd (schedule demo_env 1 20 None demo_state)) (acquire_event demo_state)) = 120"
proof -
  have i: "in64 (offset (triggers demo_state 1) + 20)" by (simp add: in64_def demo_defs)
  have q: "queues_after_delay demo_env" by (simp add: queues_after_delay_def demo_env_def)
  have j: "in64 (current_time demo_state + (offset (triggers demo_state 1) + 20))"
    by (simp add: in64_def demo_defs)
  have t: "trace demo_state = []" and c: "current_time demo_state = 100"
    and o: "offset (triggers demo_state 1) = 0"
    by (simp_all add: demo_defs)
  note th = schedule_hands_over_unclamped [OF i, of demo_env None, unfolded Let_def]
  from th have 1: "trace (snd (schedule demo_env 1 20 None demo_state)) =
          trace demo_state @ [Scheduled 1 (offset (triggers demo_state 1) + 20) None]"
    by blast
  from th q j
  have 2: "time (events (snd (schedule demo_env 1 20 None demo_state)) (acquire_event demo_state)) =
          current_time demo_state + offset (triggers demo_state 1) + 20"
    by blast
  note 1 [unfolded t o] 2 [unfolded c o]
  with i q show ?thesis by simp
qed

text \<open>
  Claim C1 as stated fails: with the offset 0 and an extra delay of -5 at time 100,
  \<^verbatim>\<open>schedule\<close> hands the delay -5 to \<^verbatim>\<open>__schedule\<close>, and with a \<^verbatim>\<open>__schedule\<close> that
  queues an event its delay after the current time the event is queued for time 95,
  before the current time.
\<close>

theorem schedule_negative_delay_counterexample:
  "(- 5 :: int) < 0
   \<and> trace (snd (schedule demo_env 1 (- 5) None demo_state)) = [Scheduled 1 (- 5) None]
   \<and> time (events (snd (schedule demo_env 1 (- 5) None demo_state)) (acquire_event demo_state)) = 95
   \<and> \<not> current_time (snd (schedule demo_env 1 (- 5) None demo_state))
        \<le> time (events (snd (schedule demo_env 1 (- 5) None demo_state)) (acquire_event demo_state))"
  by (simp add: schedule_def internal_schedule_def enqueue_event_def acquire_event_def Let_def
      demo_defs)

text \<open>
  The instant of an event under the two readings of \<^verbatim>\<open>__schedule\<close>: \<^verbatim>\<open>schedule\<close> adds
  the offset once when \<^verbatim>\<open>__schedule\<close> queues the event its delay after the current time,
  and twice when \<^verbatim>\<open>__schedule\<close> adds the offset as well.
\<close>

lemma schedule_time_readings:
  assumes "in64 (offset (triggers s tr) + d)"
  shows "queues_after_delay env \<Longrightarrow>
           time (events (snd (schedule env tr d p s)) (acquire_event s)) =
             wrap64 (current_time s + (offset (triggers s tr) + d))"
    and "adds_offset_back env \<Longrightarrow>
           time (events (snd (schedule env tr d p s)) (acquire_event s)) =
             wrap64 (current_time s + offset (triggers s tr) + (offset (triggers s tr) + d))"
  using assms
  by (simp_all add: schedule_def internal_schedule_event wrap64_id queues_after_delay_def
      adds_offset_back_def)

text \<open>
  An event scheduled while the reactions of a pass run stays in \<^verbatim>\<open>event_q\<close>,
  unchanged, until that pass is over.
\<close>

lemma schedule_stays_queued:
  assumes "pools_wf s" and "react_loop n env (snd (schedule env tr d p s)) = Inr s'"
  shows "let e = acquire_event s; s1 = snd (schedule env tr d p s); s2 = free_loop (free_q s') s' in
           e \<in> set (event_q s1)
           \<and> e \<in> set (event_q s2) \<and> events s2 e = events s1 e
           \<and> current_time s2 = current_time s"
proof -
  let ?e = "acquire_event s" and ?s1 = "snd (schedule env tr d p s)"
  let ?s2 = "free_loop (free_q s') s'"
  have q: "?e \<in> set (event_q ?s1)"
    by (simp add: schedule_def internal_schedule_event_q)
  have c1: "current_time ?s1 = current_time s" by (simp add: schedule_frame)
  have "keeps_queued s ?s1" using assms(1) by (rule schedule_keeps)
  then have "pools_wf ?s1" by (simp add: keeps_queued_def)
  then have "keeps_queued ?s1 s'" using assms(2) by (rule react_loop_keeps)
  with q have k: "?e \<in> set (event_q s') \<and> events s' ?e = events ?s1 ?e"
    by (simp add: keeps_queued_def)
  have c2: "current_time s' = current_time ?s1" using react_loop_frame [OF assms(2)] by simp
  show ?thesis
    using q k c1 c2 by (simp add: Let_def free_loop_event_q free_loop_frame)
qed



section \<open>The trace of the loops\<close>


lemma extends_by_refl: "extends_by P s s"
  by (simp add: extends_by_def)

lemma extends_by_trans: "extends_by P s s1 \<Longrightarrow> extends_by P s1 s2 \<Longrightarrow> extends_by P s s2"
  by (auto simp: extends_by_def)

lemma extends_by_same_trace: "trace t = trace s \<Longrightarrow> extends_by P t s' = extends_by P s s'"
  by (simp add: extends_by_def)

lemma extends_byI: "trace s' = trace s @ t \<Longrightarrow> list_all P t \<Longrightarrow> extends_by P s s'"
  by (auto simp: extends_by_def)

lemma schedule_extends: "extends_by react_action s (snd (schedule env tr d p s))"
  by (rule extends_byI [where t = "[Scheduled tr (wrap64 (offset (triggers s tr) + d)) p]"])
     (simp_all add: schedule_frame)

lemma do_schedules_extends: "extends_by react_action s (do_schedules env reqs s)"
proof (induction reqs arbitrary: s)
  case Nil
  show ?case by (simp add: do_schedules_Nil extends_by_refl)
next
  case (Cons a reqs)
  obtain tr d p where a: "a = (tr, d, p)" by (cases a) auto
  show ?case unfolding a do_schedules_Cons
    using schedule_extends Cons.IH by (rule extends_by_trans)
qed

lemma invoke_extends: "extends_by react_action s (invoke env r s)"
proof -
  obtain reqs w where b:
    "body_fn env (rfunction (reaction_tab s r)) (rself (reaction_tab s r)) s = (reqs, w)"
    by (cases "body_fn env (rfunction (reaction_tab s r)) (rself (reaction_tab s r)) s") auto
  let ?t = "s\<lparr>world := w, trace := trace s @ [Invoked r]\<rparr>"
  have "extends_by react_action s ?t"
    by (rule extends_byI [where t = "[Invoked r]"]) simp_all
  moreover have "extends_by react_action ?t (do_schedules env reqs ?t)"
    by (rule do_schedules_extends)
  ultimately have "extends_by react_action s (do_schedules env reqs ?t)"
    by (rule extends_by_trans)
  then show ?thesis by (simp add: invoke_def Let_def b)
qed

lemma invoke_all_extends:
  "extends_by react_action s (foldl (\<lambda>st h. invoke env h st) s hs)"
proof (induction hs arbitrary: s)
  case Nil
  show ?case by (simp add: extends_by_refl)
next
  case (Cons h hs)
  show ?case using invoke_extends [of s env h] Cons.IH [of "invoke env h s"]
    by (simp add: extends_by_trans)
qed

lemma check_deadline_extends: "extends_by react_action s (check_deadline env r s)"
proof (cases "clock_fn env (world s)")
  case (Pair p w)
  let ?t = "s\<lparr>world := w, trace := trace s @ [ClockSampled p]\<rparr>"
  have t: "extends_by react_action s ?t"
    by (rule extends_byI [where t = "[ClockSampled p]"]) simp_all
  have "extends_by react_action s (foldl (\<lambda>st h. invoke env h st) ?t hs)" for hs
    using t invoke_all_extends by (rule extends_by_trans)
  with t show ?thesis
    by (simp add: check_deadline_def Let_def Pair extends_by_refl split: option.splits)
qed

lemma trigger_output_reactions_extends:
  "extends_by react_action s (trigger_output_reactions env r s)"
  by (rule extends_byI [where t = "[Chained r]"]) (simp_all add: trigger_output_reactions_def)

lemma react_step_extends: "extends_by react_action s (react_step env r s)"
  unfolding react_step_def
  by (blast intro: extends_by_trans check_deadline_extends invoke_extends
      trigger_output_reactions_extends)

lemma react_loop_extends:
  "react_loop n env s = Inr s' \<Longrightarrow> extends_by react_action s s'"
proof (induction n arbitrary: s)
  case 0
  then show ?case
    by (cases "reaction_q s") (simp_all add: react_loop.simps [of 0] extends_by_refl)
next
  case (Suc n)
  show ?case
  proof (cases "reaction_q s")
    case Nil
    with Suc.prems show ?thesis by (simp add: react_loop.simps [of "Suc n"] extends_by_refl)
  next
    case (Cons r q)
    let ?t = "s\<lparr>reaction_q := q\<rparr>"
    have "react_loop n env (react_step env r ?t) = Inr s'"
      using Suc.prems Cons by (simp add: react_loop.simps [of "Suc n"])
    then have "extends_by react_action (react_step env r ?t) s'" by (rule Suc.IH)
    with react_step_extends [of ?t env r] have "extends_by react_action ?t s'"
      by (rule extends_by_trans)
    then show ?thesis by (simp add: extends_by_def)
  qed
qed

text \<open>The body of the drain loop.\<close>

lemma drain_step_trace:
  "trace (drain_step env e s) =
     trace s @ Popped e (ev_payload (events s e)) #
     (if period (triggers s (trigger (events s e))) > 0
      then [Scheduled (trigger (events s e))
              (wrap64 (period (triggers s (trigger (events s e)))
                       - offset (triggers s (trigger (events s e))))) None]
      else [])"
  by (simp add: drain_step_def park_event_def enqueue_and_reschedule_def Let_def
      internal_schedule_frame)

lemma drain_step_frame:
  "current_time (drain_step env e s) = current_time s
   \<and> stop_time (drain_step env e s) = stop_time s
   \<and> stop_requested (drain_step env e s) = stop_requested s
   \<and> wait_specified (drain_step env e s) = wait_specified s
   \<and> reaction_tab (drain_step env e s) = reaction_tab s
   \<and> physicalStartTime (drain_step env e s) = physicalStartTime s
   \<and> world (drain_step env e s) = world s"
  by (simp add: drain_step_def park_event_def enqueue_and_reschedule_def Let_def
      internal_schedule_frame)

lemma drain_step_extends: "extends_by drain_action s (drain_step env e s)"
  by (rule extends_byI [OF drain_step_trace]) simp

lemma set_foldl_pqueue_insert:
  "set (foldl (\<lambda>q x. pqueue_insert k x q) q0 xs) = set q0 \<union> set xs"
  by (induction xs arbitrary: q0) (auto simp: set_pqueue_insert)

lemma drain_step_reaction_q:
  "set (reaction_q (drain_step env e s)) =
     set (reaction_q s) \<union> set (reactions (triggers s (trigger (events s e))))"
  by (simp add: drain_step_def park_event_def enqueue_and_reschedule_def Let_def
      internal_schedule_frame set_foldl_pqueue_insert)

lemma drain_cases:
  assumes "drain (Suc n) env s = Inr s'"
  obtains e q where "event_q s = e # q"
    and "s' = drain_step env e (s\<lparr>event_q := q\<rparr>) \<or> drain n env (drain_step env e (s\<lparr>event_q := q\<rparr>)) = Inr s'"
  using assms
  by (cases "event_q s")
     (auto simp: pqueue_pop_def Let_def split: option.splits if_splits)

lemma drain_extends: "drain n env s = Inr s' \<Longrightarrow> extends_by drain_action s s'"
proof (induction n arbitrary: s)
  case 0
  then show ?case by simp
next
  case (Suc n)
  from Suc.prems obtain e q where eq: "event_q s = e # q"
    and d: "s' = drain_step env e (s\<lparr>event_q := q\<rparr>)
            \<or> drain n env (drain_step env e (s\<lparr>event_q := q\<rparr>)) = Inr s'"
    by (rule drain_cases)
  let ?t = "s\<lparr>event_q := q\<rparr>"
  have 1: "extends_by drain_action ?t (drain_step env e ?t)" by (rule drain_step_extends)
  from d have "extends_by drain_action ?t s'"
  proof
    assume "s' = drain_step env e ?t"
    with 1 show ?thesis by simp
  next
    assume "drain n env (drain_step env e ?t) = Inr s'"
    then have "extends_by drain_action (drain_step env e ?t) s'" by (rule Suc.IH)
    with 1 show ?thesis by (rule extends_by_trans)
  qed
  then show ?case by (simp add: extends_by_def)
qed

lemma drain_frame:
  "drain n env s = Inr s' \<Longrightarrow>
     current_time s' = current_time s \<and> stop_time s' = stop_time s
     \<and> stop_requested s' = stop_requested s \<and> wait_specified s' = wait_specified s
     \<and> reaction_tab s' = reaction_tab s \<and> physicalStartTime s' = physicalStartTime s
     \<and> world s' = world s \<and> set (reaction_q s) \<subseteq> set (reaction_q s')"
proof (induction n arbitrary: s)
  case 0
  then show ?case by simp
next
  case (Suc n)
  from Suc.prems obtain e q where eq: "event_q s = e # q"
    and d: "s' = drain_step env e (s\<lparr>event_q := q\<rparr>)
            \<or> drain n env (drain_step env e (s\<lparr>event_q := q\<rparr>)) = Inr s'"
    by (rule drain_cases)
  let ?t = "s\<lparr>event_q := q\<rparr>"
  from d show ?case
  proof
    assume "s' = drain_step env e ?t"
    then show ?thesis by (simp add: drain_step_frame drain_step_reaction_q)
  next
    assume "drain n env (drain_step env e ?t) = Inr s'"
    from Suc.IH [OF this] show ?thesis
      by (simp add: drain_step_frame drain_step_reaction_q)
  qed
qed


section \<open>One pass from the start-of-step hook on\<close>


lemma extends_by_set: "extends_by P s s' \<Longrightarrow> set (trace s) \<subseteq> set (trace s')"
  by (auto simp: extends_by_def)

lemma added_extends: "extends_by P s s' \<Longrightarrow> trace s' = trace s @ added s s'"
  by (auto simp: extends_by_def added_def)

lemma added_trans:
  "extends_by P s t \<Longrightarrow> extends_by Q t s' \<Longrightarrow> added s s' = added s t @ added t s'"
  by (auto simp: extends_by_def added_def)

lemma added_append: "trace s' = trace s @ t \<Longrightarrow> added s s' = t"
  by (simp add: added_def)





lemma free_loop_trace:
  "trace (free_loop q s) =
     trace s @ concat (map (\<lambda>e. free_payload (ev_payload (events s e))) q)"
proof (induction q arbitrary: s)
  case Nil
  show ?case by simp
next
  case (Cons e q)
  show ?case by (simp add: Cons.IH)
qed

lemma free_loop_recycle: "set (recycle_q (free_loop q s)) = set (recycle_q s) \<union> set q"
  by (induction q arbitrary: s) (auto simp: set_pqueue_insert)

lemma list_all_free_payloads:
  "list_all is_free (concat (map (\<lambda>e. free_payload (ev_payload (events s e))) q))"
  by (induction q) (simp_all add: free_payload_def split: option.splits)

lemma next_body_cases:
  assumes "next_body fuel env s = Inr (ret, s')"
  obtains s2 s3 where
    "drain fuel env (s\<lparr>world := start_time_step_fn env (world s),
                   trace := trace s @ [StartTimeStep]\<rparr>) = Inr s2"
    and "react_loop fuel env s2 = Inr s3"
    and "ret = (if stop_time s3 > 0 \<and> current_time s3 \<ge> stop_time s3 then 0 else 1)"
    and "s' = (if stop_time s3 > 0 \<and> current_time s3 \<ge> stop_time s3
               then (free_loop (free_q s3) s3)\<lparr>stop_requested := True\<rparr>
               else free_loop (free_q s3) s3)"
proof -
  let ?s1 = "s\<lparr>world := start_time_step_fn env (world s), trace := trace s @ [StartTimeStep]\<rparr>"
  from assms obtain s2 where d: "drain fuel env ?s1 = Inr s2"
    by (cases "drain fuel env ?s1") (simp_all add: next_body_def Let_def)
  from assms d obtain s3 where r: "react_loop fuel env s2 = Inr s3"
    by (cases "react_loop fuel env s2") (simp_all add: next_body_def Let_def)
  from assms d r have
    "ret = (if stop_time s3 > 0 \<and> current_time s3 \<ge> stop_time s3 then 0 else 1)"
    "s' = (if stop_time s3 > 0 \<and> current_time s3 \<ge> stop_time s3
               then (free_loop (free_q s3) s3)\<lparr>stop_requested := True\<rparr>
               else free_loop (free_q s3) s3)"
    by (auto simp: next_body_def Let_def free_loop_frame split: if_splits)
  with d r show ?thesis by (rule that)
qed

lemma next_body_trace:
  assumes "next_body fuel env s = Inr (ret, s')"
  shows "\<exists>t0 t1 t2. trace s' = trace s @ StartTimeStep # t0 @ t1 @ t2
           \<and> list_all drain_action t0 \<and> list_all react_action t1 \<and> list_all is_free t2"
proof -
  let ?s1 = "s\<lparr>world := start_time_step_fn env (world s), trace := trace s @ [StartTimeStep]\<rparr>"
  from assms obtain s2 s3 where d: "drain fuel env ?s1 = Inr s2"
    and r: "react_loop fuel env s2 = Inr s3"
    and s': "s' = (if stop_time s3 > 0 \<and> current_time s3 \<ge> stop_time s3
               then (free_loop (free_q s3) s3)\<lparr>stop_requested := True\<rparr>
               else free_loop (free_q s3) s3)"
    by (rule next_body_cases)
  from s' have t: "trace s' = trace (free_loop (free_q s3) s3)" by simp
  from drain_extends [OF d] obtain a where a: "trace s2 = trace ?s1 @ a" "list_all drain_action a"
    by (auto simp: extends_by_def)
  from react_loop_extends [OF r] obtain b where b: "trace s3 = trace s2 @ b" "list_all react_action b"
    by (auto simp: extends_by_def)
  let ?f = "concat (map (\<lambda>e. free_payload (ev_payload (events s3 e))) (free_q s3))"
  have "trace s' = trace s @ StartTimeStep # a @ b @ ?f"
    using t a b by (simp add: free_loop_trace)
  moreover have "list_all is_free ?f" by (rule list_all_free_payloads)
  ultimately show ?thesis using a(2) b(2) by blast
qed

lemma next_body_result:
  assumes "next_body fuel env s = Inr (ret, s')"
  shows "current_time s' = current_time s \<and> stop_time s' = stop_time s
         \<and> (if stop_time s > 0 \<and> current_time s \<ge> stop_time s
            then ret = 0 \<and> stop_requested s'
            else ret = 1 \<and> stop_requested s' = stop_requested s)
         \<and> free_q s' = [] \<and> reaction_q s' = []"
proof -
  let ?s1 = "s\<lparr>world := start_time_step_fn env (world s), trace := trace s @ [StartTimeStep]\<rparr>"
  from assms obtain s2 s3 where d: "drain fuel env ?s1 = Inr s2"
    and r: "react_loop fuel env s2 = Inr s3"
    and ret: "ret = (if stop_time s3 > 0 \<and> current_time s3 \<ge> stop_time s3 then 0 else 1)"
    and s': "s' = (if stop_time s3 > 0 \<and> current_time s3 \<ge> stop_time s3
               then (free_loop (free_q s3) s3)\<lparr>stop_requested := True\<rparr>
               else free_loop (free_q s3) s3)"
    by (rule next_body_cases)
  have f: "current_time s3 = current_time s" "stop_time s3 = stop_time s"
    "stop_requested s3 = stop_requested s" "reaction_q s3 = []"
    using drain_frame [OF d] react_loop_frame [OF r] by simp_all
  show ?thesis using ret s' f by (simp add: free_loop_frame)
qed



lemma drain_first_pop_safe: "event_q s \<noteq> [] \<Longrightarrow> drain n env s \<noteq> Inl NullPointer"
proof (induction n arbitrary: s)
  case 0
  show ?case by simp
next
  case (Suc n)
  then obtain e q where eq: "event_q s = e # q" by (cases "event_q s") auto
  let ?t = "drain_step env e (s\<lparr>event_q := q\<rparr>)"
  show ?case
  proof (cases "event_q ?t")
    case Nil
    then show ?thesis by (simp add: eq pqueue_pop_def pqueue_peek_def Let_def)
  next
    case (Cons e' q')
    then have "drain n env ?t \<noteq> Inl NullPointer" by (intro Suc.IH) simp
    with Cons show ?thesis by (simp add: eq pqueue_pop_def pqueue_peek_def Let_def)
  qed
qed

section \<open>The results of next\<close>


lemmas run_defs = next_iter_def after_wait_def do_wait_def next_body_def drain_step_def
  park_event_def enqueue_and_reschedule_def
  pqueue_peek_def pqueue_pop_def react_step_def check_deadline_def invoke_def
  trigger_output_reactions_def do_schedules_def schedule_def internal_schedule_def
  enqueue_event_def
  acquire_event_def event_key_def reaction_key_def free_payload_def Let_def

lemma do_wait_trace: "do_wait env t s = (r, sw) \<Longrightarrow> trace sw = trace s @ [Waited t]"
  by (auto simp: do_wait_def Let_def split: prod.splits)

lemma after_wait_cases:
  assumes "after_wait fuel env ev (r, sw) = Inr (ret, s')"
  shows "(ret = 0 \<and> s' = sw\<lparr>stop_requested := True\<rparr> \<and> r < 0
            \<and> pqueue_peek (event_q sw) = ev
            \<and> ((stop_time sw > 0 \<and> current_time sw \<ge> stop_time sw) \<or> event_q sw = []))
         \<or> next_body fuel env sw = Inr (ret, s')"
  using assms
  by (auto simp: after_wait_def Let_def pqueue_peek_def split: if_splits option.splits list.splits)

lemma next_iter_cases:
  assumes "next_iter fuel env s = Inr (ret, s')"
  shows "(ret = 0 \<and> s' = s \<and> event_q s = [] \<and> \<not> wait_specified s)
         \<or> (\<exists>r sw. do_wait env (case pqueue_peek (event_q s) of None \<Rightarrow> LLONG_MAX
                                  | Some e \<Rightarrow> time (events s e)) s = (r, sw)
               \<and> after_wait fuel env (pqueue_peek (event_q s)) (r, sw) = Inr (ret, s'))"
proof (cases "pqueue_peek (event_q s) = None \<and> \<not> wait_specified s")
  case True
  with assms show ?thesis
    by (auto simp: next_iter_def Let_def pqueue_peek_def split: list.splits)
next
  case False
  let ?t = "case pqueue_peek (event_q s) of None \<Rightarrow> LLONG_MAX | Some e \<Rightarrow> time (events s e)"
  obtain r sw where w: "do_wait env ?t s = (r, sw)" by (cases "do_wait env ?t s") auto
  with assms False have "after_wait fuel env (pqueue_peek (event_q s)) (r, sw) = Inr (ret, s')"
    by (auto simp: next_iter_def Let_def)
  with w show ?thesis by blast
qed

text \<open>
  Claim C5: \<^verbatim>\<open>next\<close> returns 0 or 1.  With an empty event queue and no \<^verbatim>\<open>-wait\<close> it
  returns 0 at once and leaves the whole state as it was: the time is not advanced and
  no reaction runs.  With an empty event queue and \<^verbatim>\<open>-wait\<close> it calls \<^verbatim>\<open>wait_until\<close>
  with \<^verbatim>\<open>LLONG_MAX\<close> before anything else.
\<close>

theorem next_returns_0_or_1:
  "(next_iter fuel env s = Inr (ret, s') \<longrightarrow> ret = 0 \<or> ret = 1)
   \<and> (event_q s = [] \<and> \<not> wait_specified s \<longrightarrow> next_iter fuel env s = Inr (0, s))
   \<and> (event_q s = [] \<and> wait_specified s \<longrightarrow>
        next_iter fuel env s = after_wait fuel env None (do_wait env LLONG_MAX s)
        \<and> (next_iter fuel env s = Inr (ret, s') \<longrightarrow>
             (\<exists>t. trace s' = trace s @ Waited LLONG_MAX # t)))"
proof (intro conjI impI)
  assume a: "next_iter fuel env s = Inr (ret, s')"
  from next_iter_cases [OF a] show "ret = 0 \<or> ret = 1"
  proof (elim disjE exE conjE)
    fix r sw
    assume "after_wait fuel env (pqueue_peek (event_q s)) (r, sw) = Inr (ret, s')"
    from after_wait_cases [OF this] show ?thesis
      using next_body_result [of fuel env sw ret s'] by (auto split: if_splits)
  qed simp
next
  assume "event_q s = [] \<and> \<not> wait_specified s"
  then show "next_iter fuel env s = Inr (0, s)"
    by (simp add: next_iter_def pqueue_peek_def)
next
  assume "event_q s = [] \<and> wait_specified s"
  then show "next_iter fuel env s = after_wait fuel env None (do_wait env LLONG_MAX s)"
    by (simp add: next_iter_def pqueue_peek_def)
next
  assume e: "event_q s = [] \<and> wait_specified s"
    and a: "next_iter fuel env s = Inr (ret, s')"
  obtain r sw where w: "do_wait env LLONG_MAX s = (r, sw)"
    by (cases "do_wait env LLONG_MAX s") auto
  from e a w have "after_wait fuel env None (r, sw) = Inr (ret, s')"
    by (simp add: next_iter_def pqueue_peek_def)
  from after_wait_cases [OF this] show "\<exists>t. trace s' = trace s @ Waited LLONG_MAX # t"
  proof
    assume "ret = 0 \<and> s' = sw\<lparr>stop_requested := True\<rparr> \<and> r < 0
            \<and> pqueue_peek (event_q sw) = None
            \<and> ((stop_time sw > 0 \<and> current_time sw \<ge> stop_time sw) \<or> event_q sw = [])"
    then show ?thesis using do_wait_trace [OF w] by simp
  next
    assume "next_body fuel env sw = Inr (ret, s')"
    from next_body_trace [OF this] show ?thesis using do_wait_trace [OF w] by auto
  qed
qed

text \<open>
  The small program with an empty event queue: without \<^verbatim>\<open>-wait\<close> the call returns 0
  and changes nothing; with \<^verbatim>\<open>-wait\<close>, a stop time of 50 and an interrupted wait it
  returns 0 after one wait for \<^verbatim>\<open>LLONG_MAX\<close>.
\<close>

theorem next_returns_0_or_1_witness:
  "next_iter 3 demo_env demo_state = Inr (0, demo_state)
   \<and> event_q demo_state = [] \<and> \<not> wait_specified demo_state
   \<and> wait_specified (demo_state\<lparr>wait_specified := True, stop_time := 50\<rparr>)
   \<and> next_iter 3 demo_env (demo_state\<lparr>wait_specified := True, stop_time := 50\<rparr>) =
       Inr (0, demo_state\<lparr>wait_specified := True, stop_time := 50, current_time := 50,
                           trace := [Waited LLONG_MAX], stop_requested := True\<rparr>)
   \<and> ((0::int) = 0 \<or> (0::int) = 1)"
proof -
  let ?s = "demo_state\<lparr>wait_specified := True, stop_time := 50\<rparr>"
  let ?s' = "demo_state\<lparr>wait_specified := True, stop_time := 50, current_time := 50,
                           trace := [Waited LLONG_MAX], stop_requested := True\<rparr>"
  have e: "event_q demo_state = [] \<and> \<not> wait_specified demo_state" by (simp add: demo_defs)
  have e2: "event_q ?s = [] \<and> wait_specified ?s" by (simp add: demo_defs)
  have r: "after_wait 3 demo_env None (do_wait demo_env LLONG_MAX ?s) = Inr (0, ?s')"
    by (simp add: after_wait_def do_wait_def pqueue_peek_def Let_def LLONG_MAX_def demo_defs)
  from next_returns_0_or_1 [of 3 demo_env demo_state 0 demo_state] e
  have 1: "next_iter 3 demo_env demo_state = Inr (0, demo_state)" by blast
  from next_returns_0_or_1 [of 3 demo_env ?s 0 ?s'] e2 r
  have 2: "next_iter 3 demo_env ?s = Inr (0, ?s')" by simp
  from 1 2 e e2 show ?thesis by simp
qed

section \<open>The stop time\<close>


lemma after_wait_body:
  assumes "after_wait fuel env ev (w, sw) = Inr (ret, s')"
    and "\<not> (w < 0 \<and> pqueue_peek (event_q sw) = ev
            \<and> ((stop_time sw > 0 \<and> current_time sw \<ge> stop_time sw) \<or> event_q sw = []))"
  shows "next_body fuel env sw = Inr (ret, s')"
  using after_wait_cases [OF assms(1)] assms(2) by blast





section \<open>Interrupted waits and the empty queue\<close>


lemma no_wait_in_react: "list_all react_action t \<Longrightarrow> filter is_wait t = []"
proof (induction t)
  case Nil
  show ?case by simp
next
  case (Cons a t)
  then show ?case by (cases a) simp_all
qed

lemma no_wait_in_drain: "list_all drain_action t \<Longrightarrow> filter is_wait t = []"
proof (induction t)
  case Nil
  show ?case by simp
next
  case (Cons a t)
  then show ?case by (cases a) simp_all
qed

lemma no_wait_in_free: "list_all is_free t \<Longrightarrow> filter is_wait t = []"
proof (induction t)
  case Nil
  show ?case by simp
next
  case (Cons a t)
  then show ?case by (cases a) simp_all
qed

text \<open>
  What \<^verbatim>\<open>next\<close> does when \<^verbatim>\<open>wait_until\<close> answers a negative value: it peeks again.  If
  the head is unchanged and the stop time has been reached or the head is null, it sets
  the stop flag and returns 0.  In every other case with an event at the head it does
  not wait again: it goes on at once with the start-of-step hook and the drain loop, so
  that the whole call waits exactly once.
\<close>

lemma interrupted_wait_falls_through:
  assumes "\<not> (event_q s = [] \<and> \<not> wait_specified s)"
    and "nt = (case pqueue_peek (event_q s) of None \<Rightarrow> LLONG_MAX | Some e \<Rightarrow> time (events s e))"
    and "do_wait env nt s = (r, sw)" and "r < 0"
  shows "(pqueue_peek (event_q sw) = pqueue_peek (event_q s)
            \<and> ((stop_time sw > 0 \<and> current_time sw \<ge> stop_time sw) \<or> event_q sw = [])
          \<longrightarrow> next_iter fuel env s = Inr (0, sw\<lparr>stop_requested := True\<rparr>))
       \<and> (\<not> (pqueue_peek (event_q sw) = pqueue_peek (event_q s)
               \<and> ((stop_time sw > 0 \<and> current_time sw \<ge> stop_time sw) \<or> event_q sw = []))
            \<and> event_q sw \<noteq> []
          \<longrightarrow> next_iter fuel env s = next_body fuel env sw)
       \<and> (next_body fuel env sw = Inr (ret, s')
          \<longrightarrow> filter is_wait (trace s') = filter is_wait (trace s) @ [Waited nt]
              \<and> (\<exists>t. trace s' = trace s @ Waited nt # StartTimeStep # t))"
proof -
  have n: "next_iter fuel env s = after_wait fuel env (pqueue_peek (event_q s)) (r, sw)"
    using assms(1,3) unfolding assms(2)
    by (auto simp: next_iter_def Let_def pqueue_peek_def split: list.splits)
  have A: "pqueue_peek (event_q sw) = pqueue_peek (event_q s)
            \<and> ((stop_time sw > 0 \<and> current_time sw \<ge> stop_time sw) \<or> event_q sw = [])
          \<longrightarrow> next_iter fuel env s = Inr (0, sw\<lparr>stop_requested := True\<rparr>)"
    using assms(4) unfolding n
    by (auto simp: after_wait_def Let_def pqueue_peek_def split: list.splits)
  have B: "\<not> (pqueue_peek (event_q sw) = pqueue_peek (event_q s)
               \<and> ((stop_time sw > 0 \<and> current_time sw \<ge> stop_time sw) \<or> event_q sw = []))
            \<and> event_q sw \<noteq> []
          \<longrightarrow> next_iter fuel env s = next_body fuel env sw"
    using assms(4) unfolding n
    by (auto simp: after_wait_def Let_def pqueue_peek_def split: list.splits)
  have C: "next_body fuel env sw = Inr (ret, s')
          \<longrightarrow> filter is_wait (trace s') = filter is_wait (trace s) @ [Waited nt]
              \<and> (\<exists>t. trace s' = trace s @ Waited nt # StartTimeStep # t)"
  proof
    assume "next_body fuel env sw = Inr (ret, s')"
    from next_body_trace [OF this] obtain t0 t1 t2
      where t: "trace s' = trace sw @ StartTimeStep # t0 @ t1 @ t2"
        and 0: "list_all drain_action t0"
        and 1: "list_all react_action t1" and 2: "list_all is_free t2"
      by blast
    have w: "trace sw = trace s @ [Waited nt]" using assms(3) by (rule do_wait_trace)
    show "filter is_wait (trace s') = filter is_wait (trace s) @ [Waited nt]
              \<and> (\<exists>t. trace s' = trace s @ Waited nt # StartTimeStep # t)"
      using t w no_wait_in_drain [OF 0] no_wait_in_react [OF 1] no_wait_in_free [OF 2] by simp
  qed
  from A B C show ?thesis by (intro conjI)
qed

text \<open>
  Claim C7 at the failing input: record 0 is queued for time 150, the time is 100, no
  stop time is set and \<^verbatim>\<open>wait_until(150)\<close> is interrupted: it answers -1 with the head of
  the queue unchanged.  The call does not wait again.  After the one wait it starts the
  step, pops the event of time 150 at time 100, invokes reaction 1 and returns 1, with
  the time still at 100.
\<close>

theorem interrupted_wait_drains_future_event:
  "(case next_iter 3 interrupted_env (demo_queued 150 1) of
      Inl _ \<Rightarrow> False
    | Inr (ret, s') \<Rightarrow>
        ret = 1
        \<and> trace s' = [Waited 150, StartTimeStep, Popped 0 None, Invoked 1, Chained 1]
        \<and> current_time s' = 100 \<and> event_q s' = [])
   \<and> time (events (demo_queued 150 1) 0) = 150
   \<and> wait_until_fn interrupted_env 150 (demo_queued 150 1) = (- 1, demo_queued 150 1)"
  by (simp add: run_defs demo_defs eval_nat_numeral react_loop.simps [of "Suc n" for n]
      react_loop.simps [of 0])

text \<open>
  Claim C9 at the failing input: the event queue is empty, \<^verbatim>\<open>-wait\<close> is given, no stop
  time is set and \<^verbatim>\<open>wait_until(LLONG_MAX)\<close> answers 0.  The first pop of the drain loop
  answers \<^verbatim>\<open>NULL\<close> and \<^verbatim>\<open>event->trigger\<close> dereferences it.
\<close>

theorem next_empty_queue_null_dereference:
  "next_iter 3 demo_env (demo_state\<lparr>wait_specified := True\<rparr>) = Inl NullPointer"
  by (simp add: run_defs demo_defs eval_nat_numeral)

section \<open>The pools through the drain loop\<close>

lemma no_free_in_react: "list_all react_action t \<Longrightarrow> filter is_free t = []"
proof (induction t)
  case Nil
  show ?case by simp
next
  case (Cons a t)
  then show ?case by (cases a) simp_all
qed

lemma no_free_in_drain: "list_all drain_action t \<Longrightarrow> filter is_free t = []"
proof (induction t)
  case Nil
  show ?case by simp
next
  case (Cons a t)
  then show ?case by (cases a) simp_all
qed

lemma frees_owed_append: "frees_owed (a @ b) = frees_owed a @ frees_owed b"
  by (induction a rule: frees_owed.induct) simp_all

lemma parked_events_append: "parked_events (a @ b) = parked_events a @ parked_events b"
  by (induction a rule: parked_events.induct) simp_all

lemma frees_owed_react: "list_all react_action t \<Longrightarrow> frees_owed t = []"
proof (induction t)
  case Nil
  show ?case by simp
next
  case (Cons a t)
  then show ?case by (cases a) simp_all
qed

lemma park_event_fields:
  "event_q (park_event e s) = event_q s"
  "events (park_event e s) = (events s)(e := (events s e)\<lparr>time := 0\<rparr>)"
  "current_time (park_event e s) = current_time s"
  "next_fresh (park_event e s) = next_fresh s"
  "trace (park_event e s) = trace s"
  "recycle_q (park_event e s) =
     (if ev_payload (events s e) = None
      then pqueue_insert (event_key (park_event e s)) e (recycle_q s) else recycle_q s)"
  "free_q (park_event e s) =
     (if ev_payload (events s e) = None
      then free_q s else pqueue_insert (event_key (park_event e s)) e (free_q s))"
  "triggers (park_event e s) =
     (triggers s)(trigger (events s e) :=
        (triggers s (trigger (events s e)))\<lparr>payload := ev_payload (events s e)\<rparr>)"
  by (auto simp: park_event_def Let_def set_pqueue_insert event_key_eq)

lemma park_event_result:
  "time (events (park_event e s) e) = 0
   \<and> trigger (events (park_event e s) e) = trigger (events s e)
   \<and> ev_payload (events (park_event e s) e) = ev_payload (events s e)
   \<and> payload (triggers (park_event e s) (trigger (events s e))) = ev_payload (events s e)
   \<and> (if ev_payload (events s e) = None
      then e \<in> set (recycle_q (park_event e s)) \<and> free_q (park_event e s) = free_q s
      else e \<in> set (free_q (park_event e s)) \<and> recycle_q (park_event e s) = recycle_q s)
   \<and> trace (park_event e s) = trace s"
  by (simp add: park_event_def Let_def set_pqueue_insert)

lemma park_event_pools:
  assumes "pools_wf s" and "e \<notin> set (event_q s)" and "e \<notin> set (recycle_q s)"
    and "e \<notin> set (free_q s)" and "e < next_fresh s"
  shows "pools_wf (park_event e s)"
    and "free_q (park_event e s) =
           (if ev_payload (events s e) = None then free_q s else free_q s @ [e])"
    and "set (recycle_q (park_event e s)) =
           (if ev_payload (events s e) = None then insert e (set (recycle_q s))
            else set (recycle_q s))"
    and "\<forall>x. x \<noteq> e \<longrightarrow> events (park_event e s) x = events s x"
proof -
  let ?t = "park_event e s"
  show same: "\<forall>x. x \<noteq> e \<longrightarrow> events ?t x = events s x" by (simp add: park_event_fields)
  from assms(1) have z: "\<forall>x \<in> set (free_q s). time (events s x) = 0"
    by (simp add: pools_wf_def)
  have "\<forall>y \<in> set (free_q s). event_key ?t y \<le> event_key ?t e"
    using z assms(4) by (auto simp: event_key_def park_event_fields)
  then have ins: "pqueue_insert (event_key ?t) e (free_q s) = free_q s @ [e]"
    by (rule pqueue_insert_last)
  show fq: "free_q ?t = (if ev_payload (events s e) = None then free_q s else free_q s @ [e])"
    by (simp add: park_event_fields ins)
  show rq: "set (recycle_q ?t) =
           (if ev_payload (events s e) = None then insert e (set (recycle_q s))
            else set (recycle_q s))"
    by (simp add: park_event_fields set_pqueue_insert)
  have keys: "map (event_key ?t) (event_q s) = map (event_key s) (event_q s)"
    using same assms(2) by (auto simp: event_key_def)
  have 1: "distinct (recycle_q ?t)"
    using assms(1,3) by (simp add: park_event_fields pools_wf_def distinct_pqueue_insert)
  have 2: "distinct (free_q ?t)" using assms(1,4) by (simp add: fq pools_wf_def)
  have 3: "distinct (event_q ?t)" using assms(1) by (simp add: park_event_fields pools_wf_def)
  have 4: "set (recycle_q ?t) \<inter> (set (event_q ?t) \<union> set (free_q ?t)) = {}"
    using assms by (auto simp: rq fq park_event_fields(1) pools_wf_def split: if_splits)
  have 5: "set (event_q ?t) \<inter> set (free_q ?t) = {}"
    using assms by (auto simp: fq park_event_fields(1) pools_wf_def split: if_splits)
  have 6: "\<forall>y \<in> set (recycle_q ?t) \<union> set (event_q ?t) \<union> set (free_q ?t). y < next_fresh ?t"
    using assms by (auto simp: rq fq park_event_fields(1,4) pools_wf_def split: if_splits)
  have 7: "sorted (map (event_key ?t) (event_q ?t))"
    using assms(1) by (simp add: park_event_fields(1) keys pools_wf_def)
  have 8: "\<forall>y \<in> set (free_q ?t). time (events ?t y) = 0"
    using z by (auto simp: fq park_event_fields(2) split: if_splits)
  from 1 2 3 4 5 6 7 8 show "pools_wf ?t" by (simp add: pools_wf_def)
qed

lemma enqueue_and_reschedule_frame:
  "free_q (enqueue_and_reschedule env e s) = free_q s"
  "current_time (enqueue_and_reschedule env e s) = current_time s"
  "triggers (enqueue_and_reschedule env e s) = triggers s"
  by (simp_all add: enqueue_and_reschedule_def Let_def internal_schedule_frame)

lemma enqueue_and_reschedule_keeps:
  assumes "pools_wf s"
  shows "keeps_queued s (enqueue_and_reschedule env e s)"
proof -
  let ?tr = "trigger (events s e)"
  let ?s1 = "s\<lparr>reaction_q := foldl (\<lambda>q x. pqueue_insert (reaction_key s) x q)
                                  (reaction_q s) (reactions (triggers s ?tr))\<rparr>"
  have p1: "pools_wf ?s1" using assms by simp
  have k1: "keeps_queued s ?s1" using p1 by (simp add: keeps_queued_def)
  have "keeps_queued ?s1 (snd (internal_schedule env tr d p ?s1))" for tr d p
    using p1 by (rule internal_schedule_keeps)
  then have "keeps_queued s (snd (internal_schedule env tr d p ?s1))" for tr d p
    by (simp add: keeps_queued_def)
  with k1 show ?thesis by (simp add: enqueue_and_reschedule_def Let_def)
qed

lemma enqueue_and_reschedule_pools:
  "set (event_q (enqueue_and_reschedule env e s)) \<subseteq> insert (acquire_event s) (set (event_q s))
   \<and> set (recycle_q (enqueue_and_reschedule env e s)) \<subseteq> set (recycle_q s)
   \<and> next_fresh s \<le> next_fresh (enqueue_and_reschedule env e s)
   \<and> (\<forall>x. x \<noteq> acquire_event s \<longrightarrow> events (enqueue_and_reschedule env e s) x = events s x)"
proof -
  have "set (tl xs) \<subseteq> set xs" for xs :: "addr list" by (cases xs) auto
  then show ?thesis
    by (auto simp: enqueue_and_reschedule_def Let_def internal_schedule_event_q
        internal_schedule_pools acquire_event_def split: list.splits)
qed

lemma pools_wf_tail:
  assumes "pools_wf s" and "event_q s = h # q"
  shows "pools_wf (s\<lparr>event_q := q\<rparr>)" and "h \<notin> set q" and "h \<notin> set (recycle_q s)"
    and "h \<notin> set (free_q s)" and "h < next_fresh s"
  using assms by (auto simp: pools_wf_def event_key_eq)

text \<open>
  The body of the drain loop keeps the pools well-formed, leaves the other queued and
  parked events as they are, and parks the popped event at the end of \<^verbatim>\<open>free_q\<close> when
  it carries a payload.
\<close>

lemma drain_step_pools:
  assumes "pools_wf s" and "event_q s = h # q"
  shows "pools_wf (drain_step env h (s\<lparr>event_q := q\<rparr>))"
    and "\<forall>x \<in> set q. x \<in> set (event_q (drain_step env h (s\<lparr>event_q := q\<rparr>)))
                \<and> events (drain_step env h (s\<lparr>event_q := q\<rparr>)) x = events s x"
    and "\<forall>x \<in> set (free_q s). events (drain_step env h (s\<lparr>event_q := q\<rparr>)) x = events s x"
    and "free_q (drain_step env h (s\<lparr>event_q := q\<rparr>)) =
           free_q s @ parked_events [Popped h (ev_payload (events s h))]"
    and "ev_payload (events (drain_step env h (s\<lparr>event_q := q\<rparr>)) h) = ev_payload (events s h)"
    and "trigger (events (drain_step env h (s\<lparr>event_q := q\<rparr>)) h) = trigger (events s h)"
    and "event_q (drain_step env h (s\<lparr>event_q := q\<rparr>)) =
           event_q (enqueue_and_reschedule env h
                      (s\<lparr>event_q := q, trace := trace s @ [Popped h (ev_payload (events s h))]\<rparr>))"
    and "h \<notin> set (event_q (drain_step env h (s\<lparr>event_q := q\<rparr>)))"
proof -
  let ?base = "s\<lparr>event_q := q, trace := trace s @ [Popped h (ev_payload (events s h))]\<rparr>"
  let ?m = "enqueue_and_reschedule env h ?base"
  let ?t = "park_event h ?m"
  have t: "drain_step env h (s\<lparr>event_q := q\<rparr>) = ?t" by (simp add: drain_step_def)
  note tl = pools_wf_tail [OF assms]
  have pb: "pools_wf ?base" using tl(1) by simp
  have km: "keeps_queued ?base ?m" using pb by (rule enqueue_and_reschedule_keeps)
  then have pm: "pools_wf ?m" and fm: "free_q ?m = free_q s"
    and sm: "\<forall>x \<in> set q. x \<in> set (event_q ?m) \<and> events ?m x = events s x"
    and sf: "\<forall>x \<in> set (free_q s). events ?m x = events s x"
    by (simp_all add: keeps_queued_def)
  have a: "acquire_event ?base \<noteq> h"
    using tl(3,5) by (auto simp: acquire_event_def split: list.splits)
  from enqueue_and_reschedule_pools [of env h ?base]
  have 1: "h \<notin> set (event_q ?m)" and 2: "h \<notin> set (recycle_q ?m)" and 4: "h < next_fresh ?m"
    and eh: "events ?m h = events s h"
    using tl(2,3,5) a by auto
  have 3: "h \<notin> set (free_q ?m)" using tl(4) fm by simp
  note pk = park_event_pools [OF pm 1 2 3 4]
  show "pools_wf (drain_step env h (s\<lparr>event_q := q\<rparr>))" unfolding t by (rule pk(1))
  show "\<forall>x \<in> set q. x \<in> set (event_q (drain_step env h (s\<lparr>event_q := q\<rparr>)))
                \<and> events (drain_step env h (s\<lparr>event_q := q\<rparr>)) x = events s x"
    unfolding t using sm pk(4) tl(2) by (auto simp: park_event_fields(1))
  show "\<forall>x \<in> set (free_q s). events (drain_step env h (s\<lparr>event_q := q\<rparr>)) x = events s x"
    unfolding t using sf pk(4) tl(4) by auto
  show "free_q (drain_step env h (s\<lparr>event_q := q\<rparr>)) =
           free_q s @ parked_events [Popped h (ev_payload (events s h))]"
  proof -
    have "free_q ?t = (if ev_payload (events s h) = None then free_q s else free_q s @ [h])"
      using pk(2) by (simp only: eh fm)
    then show ?thesis unfolding t by (cases "ev_payload (events s h)") simp_all
  qed
  show "ev_payload (events (drain_step env h (s\<lparr>event_q := q\<rparr>)) h) = ev_payload (events s h)"
    unfolding t by (simp add: park_event_fields(2) eh)
  show "trigger (events (drain_step env h (s\<lparr>event_q := q\<rparr>)) h) = trigger (events s h)"
    unfolding t by (simp add: park_event_fields(2) eh)
  show "event_q (drain_step env h (s\<lparr>event_q := q\<rparr>)) = event_q ?m"
    unfolding t by (simp add: park_event_fields(1))
  show "h \<notin> set (event_q (drain_step env h (s\<lparr>event_q := q\<rparr>)))"
    unfolding t using 1 by (simp add: park_event_fields(1))
qed

lemma pending_frees_cong:
  assumes "free_q t = free_q s" and "\<forall>x \<in> set (free_q s). events t x = events s x"
  shows "pending_frees t = pending_frees s"
  unfolding pending_frees_def assms(1)
  using assms(2) by (intro arg_cong [where f = concat] map_cong) simp_all

lemma drain_step_pending:
  assumes "pools_wf s" and "event_q s = h # q"
  shows "pending_frees (drain_step env h (s\<lparr>event_q := q\<rparr>)) =
           pending_frees s @ frees_owed [Popped h (ev_payload (events s h))]"
proof -
  let ?t = "drain_step env h (s\<lparr>event_q := q\<rparr>)"
  note d = drain_step_pools [OF assms, of env]
  have m: "map (\<lambda>e. free_payload (ev_payload (events ?t e))) (free_q s) =
           map (\<lambda>e. free_payload (ev_payload (events s e))) (free_q s)"
    using d(3) by (intro map_cong) simp_all
  have 1: "pending_frees ?t =
        concat (map (\<lambda>e. free_payload (ev_payload (events ?t e))) (free_q s))
        @ concat (map (\<lambda>e. free_payload (ev_payload (events ?t e)))
                    (parked_events [Popped h (ev_payload (events s h))]))"
    by (simp add: pending_frees_def d(4))
  have 2: "concat (map (\<lambda>e. free_payload (ev_payload (events ?t e)))
                    (parked_events [Popped h (ev_payload (events s h))])) =
           frees_owed [Popped h (ev_payload (events s h))]"
    using d(5) by (cases "ev_payload (events s h)") (simp_all add: free_payload_def)
  show ?thesis unfolding 1 m 2 by (simp add: pending_frees_def)
qed

lemma drain_step_added:
  "added s (drain_step env h (s\<lparr>event_q := q\<rparr>)) =
     Popped h (ev_payload (events s h)) #
     (if period (triggers s (trigger (events s h))) > 0
      then [Scheduled (trigger (events s h))
              (wrap64 (period (triggers s (trigger (events s h)))
                       - offset (triggers s (trigger (events s h))))) None]
      else [])"
  by (rule added_append) (simp add: drain_step_trace)

lemma drain_pools:
  "drain n env s = Inr s' \<Longrightarrow> pools_wf s \<Longrightarrow>
     pools_wf s'
     \<and> free_q s' = free_q s @ parked_events (added s s')
     \<and> pending_frees s' = pending_frees s @ frees_owed (added s s')
     \<and> (\<exists>rest. added s s' =
           Popped (hd (event_q s)) (ev_payload (events s (hd (event_q s)))) # rest)"
proof (induction n arbitrary: s)
  case 0
  then show ?case by simp
next
  case (Suc n)
  from Suc.prems(1) obtain h q where hq: "event_q s = h # q"
    and d: "s' = drain_step env h (s\<lparr>event_q := q\<rparr>)
            \<or> drain n env (drain_step env h (s\<lparr>event_q := q\<rparr>)) = Inr s'"
    by (rule drain_cases)
  let ?t = "drain_step env h (s\<lparr>event_q := q\<rparr>)"
  note p = drain_step_pools [OF Suc.prems(2) hq, of env]
  note pf = drain_step_pending [OF Suc.prems(2) hq, of env]
  have ad: "\<exists>rest. added s ?t = Popped h (ev_payload (events s h)) # rest
                  \<and> parked_events (added s ?t) = parked_events [Popped h (ev_payload (events s h))]
                  \<and> frees_owed (added s ?t) = frees_owed [Popped h (ev_payload (events s h))]"
    by (cases "ev_payload (events s h)") (simp_all add: drain_step_added)
  from d show ?case
  proof
    assume "s' = ?t"
    with p(1) p(4) pf ad hq show ?thesis by auto
  next
    assume dn: "drain n env ?t = Inr s'"
    from Suc.IH [OF dn p(1)]
    have 1: "pools_wf s'" and 2: "free_q s' = free_q ?t @ parked_events (added ?t s')"
      and 3: "pending_frees s' = pending_frees ?t @ frees_owed (added ?t s')"
      by simp_all
    have e1: "extends_by drain_action s ?t"
      using drain_step_extends [of "s\<lparr>event_q := q\<rparr>" env h] by (simp add: extends_by_def)
    have e2: "extends_by drain_action ?t s'" using dn by (rule drain_extends)
    have sp: "added s s' = added s ?t @ added ?t s'" using e1 e2 by (rule added_trans)
    from ad obtain rest where r: "added s ?t = Popped h (ev_payload (events s h)) # rest"
      and pe: "parked_events (added s ?t) = parked_events [Popped h (ev_payload (events s h))]"
      and fo: "frees_owed (added s ?t) = frees_owed [Popped h (ev_payload (events s h))]"
      by blast
    have "free_q s' = free_q s @ parked_events (added s s')"
      using 2 p(4) pe by (simp add: sp parked_events_append)
    moreover have "pending_frees s' = pending_frees s @ frees_owed (added s s')"
      using 3 pf fo by (simp add: sp frees_owed_append)
    moreover have "added s s' = Popped (hd (event_q s)) (ev_payload (events s (hd (event_q s))))
                     # rest @ added ?t s'"
      using r hq by (simp add: sp)
    ultimately show ?thesis using 1 by blast
  qed
qed

lemma free_loop_pools:
  "pools_wf s \<Longrightarrow> free_q s = q \<Longrightarrow> pools_wf (free_loop q s)"
proof (induction q arbitrary: s)
  case Nil
  then show ?case by (simp add: pools_wf_def event_key_eq)
next
  case (Cons e es)
  let ?s1 = "s\<lparr>free_q := es,
          trace := trace s @ free_payload (ev_payload (events s e)),
          recycle_q := pqueue_insert (event_key s) e (recycle_q s)\<rparr>"
  from Cons.prems have "e \<notin> set (recycle_q s)" by (auto simp: pools_wf_def)
  then have "distinct (pqueue_insert (event_key s) e (recycle_q s))"
    using Cons.prems by (intro distinct_pqueue_insert) (simp_all add: pools_wf_def)
  then have "pools_wf ?s1"
    using Cons.prems by (auto simp: pools_wf_def event_key_eq set_pqueue_insert)
  moreover have "free_q ?s1 = es" by simp
  ultimately have "pools_wf (free_loop es ?s1)" by (rule Cons.IH)
  then show ?case by simp
qed

lemma react_loop_pending:
  assumes "pools_wf s" and "react_loop n env s = Inr s'"
  shows "pools_wf s'" and "pending_frees s' = pending_frees s" and "free_q s' = free_q s"
    and "\<forall>x \<in> set (event_q s). x \<in> set (event_q s') \<and> events s' x = events s x"
proof -
  from assms have k: "keeps_queued s s'" by (rule react_loop_keeps)
  then show "pools_wf s'" and f: "free_q s' = free_q s"
    and "\<forall>x \<in> set (event_q s). x \<in> set (event_q s') \<and> events s' x = events s x"
    by (simp_all add: keeps_queued_def)
  from k have "\<forall>x \<in> set (free_q s). events s' x = events s x" by (simp add: keeps_queued_def)
  with f show "pending_frees s' = pending_frees s" by (rule pending_frees_cong)
qed

text \<open>
  One pass from the start-of-step hook on, from well-formed pools with an empty
  \<^verbatim>\<open>free_q\<close>: the trace grows by the hook, the actions of the drain loop, the actions
  of the reactions and then one free for each popped event with a payload.
\<close>

lemma next_body_frees:
  assumes "next_body fuel env sw = Inr (ret, s')" and "pools_wf sw" and "free_q sw = []"
  shows "\<exists>D R. added sw s' = StartTimeStep # D @ R @ frees_owed D
           \<and> list_all drain_action D \<and> list_all react_action R
           \<and> (\<exists>rest. D = Popped (hd (event_q sw)) (ev_payload (events sw (hd (event_q sw)))) # rest)
           \<and> set (parked_events D) \<subseteq> set (recycle_q s')
           \<and> free_q s' = [] \<and> pools_wf s'"
proof -
  let ?s1 = "sw\<lparr>world := start_time_step_fn env (world sw), trace := trace sw @ [StartTimeStep]\<rparr>"
  from assms(1) obtain s2 s3 where d: "drain fuel env ?s1 = Inr s2"
    and r: "react_loop fuel env s2 = Inr s3"
    and s': "s' = (if stop_time s3 > 0 \<and> current_time s3 \<ge> stop_time s3
               then (free_loop (free_q s3) s3)\<lparr>stop_requested := True\<rparr>
               else free_loop (free_q s3) s3)"
    by (rule next_body_cases)
  let ?f = "free_loop (free_q s3) s3"
  from s' have t: "trace s' = trace ?f" and rq: "recycle_q s' = recycle_q ?f"
    and fq: "free_q s' = free_q ?f" and pw: "pools_wf s' = pools_wf ?f"
    by simp_all
  have p1: "pools_wf ?s1" using assms(2) by simp
  have pf1: "pending_frees ?s1 = []" using assms(3) by (simp add: pending_frees_def)
  from drain_pools [OF d p1]
  have p2: "pools_wf s2" and f2: "free_q s2 = parked_events (added ?s1 s2)"
    and o2: "pending_frees s2 = frees_owed (added ?s1 s2)"
    and hd2: "\<exists>rest. added ?s1 s2 =
           Popped (hd (event_q sw)) (ev_payload (events sw (hd (event_q sw)))) # rest"
    using assms(3) pf1 by simp_all
  note rl = react_loop_pending [OF p2 r]
  have e1: "extends_by drain_action ?s1 s2" using d by (rule drain_extends)
  have e2: "extends_by react_action s2 s3" using r by (rule react_loop_extends)
  have t2: "trace s2 = trace ?s1 @ added ?s1 s2" using e1 by (rule added_extends)
  have t3: "trace s3 = trace s2 @ added s2 s3" using e2 by (rule added_extends)
  have l1: "list_all drain_action (added ?s1 s2)"
    using e1 by (auto simp: extends_by_def added_def)
  have l2: "list_all react_action (added s2 s3)"
    using e2 by (auto simp: extends_by_def added_def)
  have "trace ?f = trace s3 @ pending_frees s3"
    by (simp add: free_loop_trace pending_frees_def)
  then have "trace s' = trace sw @ StartTimeStep # added ?s1 s2 @ added s2 s3
                          @ frees_owed (added ?s1 s2)"
    using t t2 t3 rl(2) o2 by simp
  then have A: "added sw s' = StartTimeStep # added ?s1 s2 @ added s2 s3
                          @ frees_owed (added ?s1 s2)"
    by (rule added_append)
  have B: "set (parked_events (added ?s1 s2)) \<subseteq> set (recycle_q s')"
    using f2 rl(3) by (simp add: rq free_loop_recycle)
  have C: "free_q s' = []" by (simp add: fq free_loop_frame)
  have D: "pools_wf s'" unfolding pw using rl(1) by (rule free_loop_pools) simp
  from A l1 l2 hd2 B C D show ?thesis by blast
qed

text \<open>
  Claim C8.  The body of the drain loop copies the payload pointer of the popped event
  into its trigger, sets its time to zero and puts it into \<^verbatim>\<open>recycle_q\<close> when the
  payload is null, leaving \<^verbatim>\<open>free_q\<close> as it was, and into \<^verbatim>\<open>free_q\<close> otherwise, putting
  nothing into \<^verbatim>\<open>recycle_q\<close>.  A call of \<^verbatim>\<open>next\<close> that gets past the wait with
  well-formed pools and an empty \<^verbatim>\<open>free_q\<close> extends the trace by the start-of-step
  hook, the pops and reschedulings of the drain loop, beginning with the pop of the head
  event, the actions of the reactions, and then exactly one free for each popped event
  with a payload, in the order of the pops.  Nothing is freed before the last reaction
  has returned.  At the end \<^verbatim>\<open>free_q\<close> is empty again, the records of the events that
  were parked there are in \<^verbatim>\<open>recycle_q\<close>, and the pools are well-formed.
\<close>

theorem payloads_freed_at_end_of_tag:
  assumes "next_iter fuel env s = Inr (ret, s')"
    and "do_wait env (case pqueue_peek (event_q s) of None \<Rightarrow> LLONG_MAX
                      | Some e \<Rightarrow> time (events s e)) s = (w, sw)"
    and "\<not> (event_q s = [] \<and> \<not> wait_specified s)"
    and "\<not> (w < 0 \<and> pqueue_peek (event_q sw) = pqueue_peek (event_q s)
            \<and> ((stop_time sw > 0 \<and> current_time sw \<ge> stop_time sw) \<or> event_q sw = []))"
    and "pools_wf sw" and "free_q sw = []"
  shows "(\<exists>D R. added sw s' = StartTimeStep # D @ R @ frees_owed D
            \<and> list_all drain_action D \<and> list_all react_action R
            \<and> (\<exists>rest. D = Popped (hd (event_q sw))
                             (ev_payload (events sw (hd (event_q sw)))) # rest)
            \<and> set (parked_events D) \<subseteq> set (recycle_q s'))
         \<and> free_q s' = [] \<and> pools_wf s'
         \<and> (\<forall>e t. time (events (drain_step env e t) e) = 0
               \<and> payload (triggers (drain_step env e t) (trigger (events (drain_step env e t) e))) =
                   ev_payload (events (drain_step env e t) e)
               \<and> (if ev_payload (events (drain_step env e t) e) = None
                  then e \<in> set (recycle_q (drain_step env e t))
                       \<and> free_q (drain_step env e t) = free_q t
                  else e \<in> set (free_q (drain_step env e t))
                       \<and> set (recycle_q (drain_step env e t)) \<subseteq> set (recycle_q t)))"
proof -
  have a: "after_wait fuel env (pqueue_peek (event_q s)) (w, sw) = Inr (ret, s')"
    using assms(1,2,3) by (auto simp: next_iter_def Let_def pqueue_peek_def split: list.splits)
  from a assms(4) have b: "next_body fuel env sw = Inr (ret, s')" by (rule after_wait_body)
  have P: "time (events (drain_step env e t) e) = 0
         \<and> payload (triggers (drain_step env e t) (trigger (events (drain_step env e t) e))) =
             ev_payload (events (drain_step env e t) e)
         \<and> (if ev_payload (events (drain_step env e t) e) = None
            then e \<in> set (recycle_q (drain_step env e t))
                 \<and> free_q (drain_step env e t) = free_q t
            else e \<in> set (free_q (drain_step env e t))
                 \<and> set (recycle_q (drain_step env e t)) \<subseteq> set (recycle_q t))" for e t
  proof -
    let ?m = "enqueue_and_reschedule env e (t\<lparr>trace := trace t @ [Popped e (ev_payload (events t e))]\<rparr>)"
    have "set (recycle_q ?m) \<subseteq> set (recycle_q t)" and "free_q ?m = free_q t"
      using enqueue_and_reschedule_pools [of env e "t\<lparr>trace := trace t @ [Popped e (ev_payload (events t e))]\<rparr>"]
      by (simp_all add: enqueue_and_reschedule_frame)
    then show ?thesis
      using park_event_result [of e ?m] by (simp add: drain_step_def)
  qed
  from next_body_frees [OF b assms(5,6)] P show ?thesis by blast
qed

text \<open>
  Record 0 carries the payload 7 for trigger 1 at time 100: the call of \<^verbatim>\<open>next\<close> pops
  it, invokes reaction 1, frees the payload 7 once after it and ends with an empty
  \<^verbatim>\<open>free_q\<close> and record 0 in \<^verbatim>\<open>recycle_q\<close>.
\<close>

theorem payloads_freed_at_end_of_tag_witness:
  "(let s = (demo_queued 100 1)\<lparr>events := (\<lambda>_. \<lparr>time = 100, trigger = 1, ev_payload = Some 7\<rparr>)\<rparr>;
        sw = s\<lparr>trace := [Waited 100]\<rparr>
    in do_wait demo_env 100 s = (0, sw) \<and> pools_wf sw \<and> free_q sw = []
       \<and> (\<exists>s'. next_iter 3 demo_env s = Inr (1, s')
             \<and> added sw s' = [StartTimeStep, Popped 0 (Some 7), Invoked 1, Chained 1, Freed 7]
             \<and> free_q s' = [] \<and> recycle_q s' = [0] \<and> pools_wf s'))"
proof -
  let ?s = "(demo_queued 100 1)\<lparr>events := (\<lambda>_. \<lparr>time = 100, trigger = 1, ev_payload = Some 7\<rparr>)\<rparr>"
  let ?sw = "?s\<lparr>trace := [Waited 100]\<rparr>"
  have w: "do_wait demo_env (case pqueue_peek (event_q ?s) of None \<Rightarrow> LLONG_MAX
                      | Some e \<Rightarrow> time (events ?s e)) ?s = (0, ?sw)"
    by (simp add: do_wait_def pqueue_peek_def demo_defs)
  have w': "do_wait demo_env 100 ?s = (0, ?sw)" by (simp add: do_wait_def demo_defs)
  have ne: "\<not> (event_q ?s = [] \<and> \<not> wait_specified ?s)" by (simp add: demo_defs)
  have nr: "\<not> ((0::int) < 0 \<and> pqueue_peek (event_q ?sw) = pqueue_peek (event_q ?s)
            \<and> ((stop_time ?sw > 0 \<and> current_time ?sw \<ge> stop_time ?sw) \<or> event_q ?sw = []))"
    by simp
  have wf: "pools_wf ?sw" by (simp add: pools_wf_def demo_defs)
  have fq: "free_q ?sw = []" by (simp add: demo_defs)
  have "\<exists>s'. next_iter 3 demo_env ?s = Inr (1, s')
          \<and> trace s' = [Waited 100, StartTimeStep, Popped 0 (Some 7), Invoked 1, Chained 1, Freed 7]
          \<and> recycle_q s' = [0]"
    by (simp add: run_defs demo_defs eval_nat_numeral react_loop.simps [of "Suc n" for n]
        react_loop.simps [of 0])
  then obtain s' where n: "next_iter 3 demo_env ?s = Inr (1, s')"
    and t: "trace s' = [Waited 100, StartTimeStep, Popped 0 (Some 7), Invoked 1, Chained 1, Freed 7]"
    and r: "recycle_q s' = [0]"
    by blast
  from payloads_freed_at_end_of_tag [OF n w ne nr wf fq]
  have "free_q s' = []" and "pools_wf s'" by blast+
  moreover have "added ?sw s' = [StartTimeStep, Popped 0 (Some 7), Invoked 1, Chained 1, Freed 7]"
    by (simp add: added_def t)
  ultimately show ?thesis unfolding Let_def using w' wf fq n r by blast
qed

section \<open>The exit code of main\<close>


lemma next_iter_trace:
  assumes "next_iter fuel env s = Inr (ret, s')"
  shows "\<exists>t. trace s' = trace s @ t"
  using next_iter_cases [OF assms]
proof (elim disjE exE conjE)
  fix r sw
  assume w: "do_wait env (case pqueue_peek (event_q s) of None \<Rightarrow> LLONG_MAX
                          | Some e \<Rightarrow> time (events s e)) s = (r, sw)"
    and a: "after_wait fuel env (pqueue_peek (event_q s)) (r, sw) = Inr (ret, s')"
  from after_wait_cases [OF a] show ?thesis
  proof (elim disjE)
    assume "next_body fuel env sw = Inr (ret, s')"
    from next_body_trace [OF this] show ?thesis using do_wait_trace [OF w] by auto
  next
    assume "ret = 0 \<and> s' = sw\<lparr>stop_requested := True\<rparr> \<and> r < 0
            \<and> pqueue_peek (event_q sw) = pqueue_peek (event_q s)
            \<and> ((stop_time sw > 0 \<and> current_time sw \<ge> stop_time sw) \<or> event_q sw = [])"
    then show ?thesis using do_wait_trace [OF w] by simp
  qed
qed simp

lemma main_loop_result:
  "main_loop n fuel env s = Inr s2 \<Longrightarrow>
     (\<exists>t. trace s2 = trace s @ t)
     \<and> (\<exists>s1 ret. next_iter fuel env s1 = Inr (ret, s2) \<and> (ret = 0 \<or> stop_requested s2))"
proof (induction n arbitrary: s)
  case 0
  then show ?case by simp
next
  case (Suc n)
  from Suc.prems obtain ret s1 where n: "next_iter fuel env s = Inr (ret, s1)"
    by (cases "next_iter fuel env s") auto
  from next_iter_trace [OF n] obtain t where t: "trace s1 = trace s @ t" ..
  show ?case
  proof (cases "ret \<noteq> 0 \<and> \<not> stop_requested s1")
    case True
    with Suc.prems n have "main_loop n fuel env s1 = Inr s2" by simp
    from Suc.IH [OF this] t show ?thesis by auto
  next
    case False
    with Suc.prems n have "s2 = s1" by auto
    with n t False show ?thesis by blast
  qed
qed

lemma start_timers_trace: "\<exists>t. trace (start_timers env s) = trace s @ TimersStarted # t"
proof -
  have "trace (foldl (\<lambda>st tr. enqueue_event tr (wrap64 (current_time st + offset (triggers st tr)))
                              None st) st trs) = trace st"
    for st :: "'a runtime" and trs
    by (induction trs arbitrary: st) (simp_all add: enqueue_event_frame)
  then show ?thesis by (simp add: start_timers_def)
qed

lemma process_args_trace: "trace (snd (process_args env argv s)) = trace s"
  by (simp add: process_args_def split: prod.splits)

text \<open>
  When \<^verbatim>\<open>process_args\<close> fails, \<^verbatim>\<open>main\<close> returns -1 at once: nothing is initialized, no
  timer is started, \<^verbatim>\<open>next\<close> is not called and nothing is printed.  When it succeeds
  and the loop over \<^verbatim>\<open>next\<close> ends, it ends because \<^verbatim>\<open>next\<close> returned 0 or a stop was
  requested, and \<^verbatim>\<open>main\<close> returns 0 after \<^verbatim>\<open>initialize\<close>, the timers, the loop and
  \<^verbatim>\<open>wrapup\<close>, in this order.  No other exit code is returned.
\<close>

lemma main_exit_codes_if_loop_ends:
  "(\<not> fst (process_args env argv s) \<longrightarrow>
      main n fuel env argv s = Inr (- 1, snd (process_args env argv s))
      \<and> trace (snd (process_args env argv s)) = trace s)
   \<and> (fst (process_args env argv s) \<longrightarrow>
        (main_loop n fuel env
           (start_timers env (initialize env (snd (process_args env argv s)))) = Inr s2
         \<longrightarrow> main n fuel env argv s = Inr (0, wrapup env s2)
             \<and> (\<exists>s1 ret. next_iter fuel env s1 = Inr (ret, s2)
                          \<and> (ret = 0 \<or> stop_requested s2))
             \<and> (\<exists>t a b. trace (wrapup env s2) =
                           trace s @ Initialized # TimersStarted # t @ [Printed a b]))
        \<and> (main n fuel env argv s = Inr (code, s') \<longrightarrow> code = 0))"
proof -
  obtain ok s0 where p: "process_args env argv s = (ok, s0)"
    by (cases "process_args env argv s") auto
  have t0: "trace s0 = trace s" using process_args_trace [of env argv s] p by simp
  have A: "\<not> fst (process_args env argv s) \<longrightarrow>
      main n fuel env argv s = Inr (- 1, snd (process_args env argv s))
      \<and> trace (snd (process_args env argv s)) = trace s"
    using p t0 by (simp add: main_def)
  have B: "fst (process_args env argv s) \<and> main_loop n fuel env
           (start_timers env (initialize env (snd (process_args env argv s)))) = Inr s2
         \<longrightarrow> main n fuel env argv s = Inr (0, wrapup env s2)
             \<and> (\<exists>s1 ret. next_iter fuel env s1 = Inr (ret, s2)
                          \<and> (ret = 0 \<or> stop_requested s2))
             \<and> (\<exists>t a b. trace (wrapup env s2) =
                           trace s @ Initialized # TimersStarted # t @ [Printed a b])"
  proof
    assume a: "fst (process_args env argv s) \<and> main_loop n fuel env
           (start_timers env (initialize env (snd (process_args env argv s)))) = Inr s2"
    then have ok: ok and l: "main_loop n fuel env (start_timers env (initialize env s0)) = Inr s2"
      using p by simp_all
    have m: "main n fuel env argv s = Inr (0, wrapup env s2)"
      using p ok l by (simp add: main_def)
    have i: "trace (initialize env s0) = trace s @ [Initialized]"
      using t0 by (simp add: initialize_def Let_def)
    from start_timers_trace [of env "initialize env s0"] i obtain t1
      where t1: "trace (start_timers env (initialize env s0)) =
                   trace s @ Initialized # TimersStarted # t1"
      by auto
    from main_loop_result [OF l] obtain t2 where
      t2: "trace s2 = trace (start_timers env (initialize env s0)) @ t2"
      and x: "\<exists>s1 ret. next_iter fuel env s1 = Inr (ret, s2) \<and> (ret = 0 \<or> stop_requested s2)"
      by blast
    have "\<exists>a b. trace (wrapup env s2) = trace s2 @ [Printed a b]"
      by (cases "clock_fn env (world s2)") (simp add: wrapup_def)
    then obtain a b where "trace (wrapup env s2) =
        trace s @ Initialized # TimersStarted # (t1 @ t2) @ [Printed a b]"
      using t1 t2 by auto
    then have "\<exists>t a b. trace (wrapup env s2) =
                           trace s @ Initialized # TimersStarted # t @ [Printed a b]"
      by blast
    with m x show "main n fuel env argv s = Inr (0, wrapup env s2)
             \<and> (\<exists>s1 ret. next_iter fuel env s1 = Inr (ret, s2)
                          \<and> (ret = 0 \<or> stop_requested s2))
             \<and> (\<exists>t a b. trace (wrapup env s2) =
                           trace s @ Initialized # TimersStarted # t @ [Printed a b])"
      by blast
  qed
  have C: "fst (process_args env argv s) \<and> main n fuel env argv s = Inr (code, s')
           \<longrightarrow> code = 0"
    using p by (auto simp: main_def split: sum.splits)
  from A B C show ?thesis by blast
qed

text \<open>
  Claim C10 at the failing input: the program has no timer and is started with
  \<^verbatim>\<open>-wait\<close>.  \<^verbatim>\<open>process_args\<close> succeeds, \<^verbatim>\<open>initialize\<close> and \<^verbatim>\<open>__start_timers\<close> run, and the
  first call of \<^verbatim>\<open>next\<close> finds the event queue empty, waits, and dereferences the
  \<^verbatim>\<open>NULL\<close> that the pop on line 80 answers: \<^verbatim>\<open>main\<close> returns no exit code, whatever
  the fuel is.
\<close>

theorem main_no_exit_code_on_empty_queue:
  "fst (process_args idle_env [''-wait''] demo_state)
   \<and> main (Suc n) (Suc m) idle_env [''-wait''] demo_state = Inl NullPointer"
  by (simp add: main_def process_args_def initialize_def start_timers_def idle_env_def
      next_iter_def after_wait_def do_wait_def next_body_def pqueue_peek_def pqueue_pop_def
      Let_def LLONG_MAX_def demo_defs)

section \<open>The event queue through the drain loop\<close>

lemma timers_in_range_upd [simp]:
  "timers_in_range (s\<lparr>world := w\<rparr>) = timers_in_range s"
  "timers_in_range (s\<lparr>trace := t\<rparr>) = timers_in_range s"
  "timers_in_range (s\<lparr>event_q := q\<rparr>) = timers_in_range s"
  by (simp_all add: timers_in_range_def)

lemma queue_wf_upd [simp]:
  "queue_wf (s\<lparr>world := w\<rparr>) = queue_wf s"
  "queue_wf (s\<lparr>trace := t\<rparr>) = queue_wf s"
  by (simp_all add: queue_wf_def)












section \<open>Periodic triggers\<close>





text \<open>Starting the timers keeps the pools well-formed and leaves \<^verbatim>\<open>free_q\<close> alone.\<close>

lemma start_timers_pools:
  assumes "pools_wf s"
  shows "pools_wf (start_timers env s) \<and> free_q (start_timers env s) = free_q s"
proof -
  let ?q = "\<lambda>st tr. enqueue_event tr (wrap64 (current_time st + offset (triggers st tr))) None st"
  have "pools_wf st \<Longrightarrow> pools_wf (foldl ?q st trs) \<and> free_q (foldl ?q st trs) = free_q st"
    for st :: "'a runtime" and trs
  proof (induction trs arbitrary: st)
    case Nil
    then show ?case by simp
  next
    case (Cons t trs)
    have "keeps_queued st (?q st t)" using Cons.prems by (rule enqueue_event_keeps)
    then have "pools_wf (?q st t)" and "free_q (?q st t) = free_q st"
      by (simp_all add: keeps_queued_def)
    with Cons.IH [of "?q st t"] show ?case by simp
  qed
  from this [of "s\<lparr>trace := trace s @ [TimersStarted]\<rparr>" "start_timers_fn env s"] assms
  show ?thesis by (simp add: start_timers_def)
qed


section \<open>The two calls of the scheduler\<close>

text \<open>
  The call the drain loop makes for a periodic trigger on line 91 is the call that
  \<^verbatim>\<open>schedule(trigger, period - 2 * offset, NULL)\<close> makes on line 20, whatever
  \<^verbatim>\<open>__schedule\<close> does: for a trigger with an offset that is not zero, the two lines do
  not agree on whether \<^verbatim>\<open>__schedule\<close> adds the offset.
\<close>

lemma reschedule_is_schedule:
  assumes "0 < period (triggers s (trigger (events s e)))"
  shows "enqueue_and_reschedule env e s =
           snd (schedule env (trigger (events s e))
                  (period (triggers s (trigger (events s e)))
                   - 2 * offset (triggers s (trigger (events s e)))) None
                  (s\<lparr>reaction_q := foldl (\<lambda>q x. pqueue_insert (reaction_key s) x q)
                         (reaction_q s) (reactions (triggers s (trigger (events s e))))\<rparr>))"
  using assms by (simp add: enqueue_and_reschedule_def schedule_def Let_def)

text \<open>
  With a \<^verbatim>\<open>__schedule\<close> that queues an event its delay after the current time, the event
  that line 91 queues for a periodic trigger lies \<open>period - offset\<close> after the current
  time, and not one period after it.
\<close>

lemma reschedule_without_offset:
  assumes "queues_after_delay env" and "0 < period (triggers s (trigger (events s e)))"
    and "in64 (period (triggers s (trigger (events s e)))
               - offset (triggers s (trigger (events s e))))"
    and "in64 (current_time s + (period (triggers s (trigger (events s e)))
                                 - offset (triggers s (trigger (events s e)))))"
  shows "events (enqueue_and_reschedule env e s) (acquire_event s) =
           \<lparr>time = current_time s + period (triggers s (trigger (events s e)))
                     - offset (triggers s (trigger (events s e))),
            trigger = trigger (events s e), ev_payload = None\<rparr>"
proof -
  let ?tr = "trigger (events s e)"
  let ?s1 = "s\<lparr>reaction_q := foldl (\<lambda>q x. pqueue_insert (reaction_key s) x q)
                                  (reaction_q s) (reactions (triggers s ?tr))\<rparr>"
  have a1: "acquire_event ?s1 = acquire_event s"
    by (simp add: acquire_event_def split: list.splits)
  show ?thesis
    using assms internal_schedule_event [of env ?tr _ None ?s1]
    by (simp add: enqueue_and_reschedule_def Let_def a1 queues_after_delay_def wrap64_id)
qed

section \<open>The instants at which a periodic trigger fires\<close>









end
